theory Spec2Isabelle
  imports Main "HOL-Library.Multiset"
begin

section \<open>Aspect and opinion span decoding of the sentiment-analysis demo\<close>

text \<open>
  The development embeds the function \<open>decoding\<close> of
  \<^verbatim>\<open>applications/sentiment_analysis/demo.py\<close>: the length assertion, the split of the
  text at punctuation marks, the call of the span extractor on every segment, and the
  two nested loops that group opinion words under aspect words.
\<close>

subsection \<open>Python values\<close>

text \<open>
  A Python \<open>str\<close> is a sequence of Unicode code points, and the punctuation set of the
  source holds code points beyond one byte, so a text is a list of code points. Tag
  labels and entity names are plain ASCII strings.
\<close>

type_synonym ustr = "nat list"

definition ascii :: "string \<Rightarrow> ustr" where
  "ascii s = map of_char s"

text \<open>
  The slice \<^verbatim>\<open>xs[i:j]\<close> for indices \<open>0 \<le> i\<close> and \<open>0 \<le> j\<close>: both ends are clamped
  to the length and the slice is empty when \<open>j \<le> i\<close>. It never raises.
\<close>

definition slice :: "'a list \<Rightarrow> nat \<Rightarrow> nat \<Rightarrow> 'a list" where
  "slice xs i j = take (j - i) (drop i xs)"

text \<open>
  \<^verbatim>\<open>xs[-1].extend(ys)\<close> on a list of lists. Every call of the source is guarded by a
  test that \<open>xs\<close> is not empty, or follows an append to \<open>xs\<close>.
\<close>

definition extend_last :: "'a list list \<Rightarrow> 'a list \<Rightarrow> 'a list list" where
  "extend_last xs ys = butlast xs @ [last xs @ ys]"

subsection \<open>The assertion\<close>

datatype error = AssertionError string

fun str_nat :: "nat \<Rightarrow> string" where
  "str_nat n =
     (if n < 10 then [char_of (48 + n)]
      else str_nat (n div 10) @ [char_of (48 + n mod 10)])"

declare str_nat.simps [simp del]

text \<open>The f-string \<^verbatim>\<open>f"text len: {len(text)}, tag_seq len: {len(tag_seq)}"\<close>.\<close>

definition assert_message :: "nat \<Rightarrow> nat \<Rightarrow> string" where
  "assert_message n m = ''text len: '' @ str_nat n @ '', tag_seq len: '' @ str_nat m"

subsection \<open>The segmenter\<close>

text \<open>\<^verbatim>\<open>puncs = list(",.?;!\<dots>")\<close>: five ASCII marks and the full-width comma U+FF0C,
  ideographic full stop U+3002, full-width question mark U+FF1F, semicolon U+FF1B and
  exclamation mark U+FF01.\<close>

definition puncs :: "nat list" where
  "puncs = [44, 46, 63, 59, 33, 65292, 12290, 65311, 65307, 65281]"

text \<open>\<^verbatim>\<open>splits = [idx for idx in range(len(text)) if text[idx] in puncs]\<close>\<close>

definition splits :: "ustr \<Rightarrow> nat list" where
  "splits text = filter (\<lambda>idx. text ! idx \<in> set puncs) [0..<length text]"

text \<open>
  The loop over \<open>splits\<close>, with the state \<open>(prev, sub_texts, sub_tag_seqs)\<close>:
  each round appends the slices \<open>[prev:split]\<close> and sets \<open>prev = split\<close>.
\<close>

fun split_loop ::
  "ustr \<Rightarrow> 't list \<Rightarrow> nat list \<Rightarrow> nat \<times> ustr list \<times> 't list list
     \<Rightarrow> nat \<times> ustr list \<times> 't list list" where
  "split_loop text tag_seq [] st = st"
| "split_loop text tag_seq (split # rest) (prev, sub_texts, sub_tag_seqs) =
     split_loop text tag_seq rest
       (split, sub_texts @ [slice text prev split],
        sub_tag_seqs @ [slice tag_seq prev split])"

text \<open>The segmenter: the loop, then the two final slices \<open>[prev:]\<close>.\<close>

definition segment :: "ustr \<Rightarrow> 't list \<Rightarrow> ustr list \<times> 't list list" where
  "segment text tag_seq =
     (case split_loop text tag_seq (splits text) (0, [], []) of
        (prev, sub_texts, sub_tag_seqs) \<Rightarrow>
          (sub_texts @ [drop prev text], sub_tag_seqs @ [drop prev tag_seq]))"

subsection \<open>Entities\<close>

text \<open>
  An entity is the triple \<open>(ent_name, start, end)\<close> of the span extractor, \<open>end\<close>
  inclusive. The extractor \<^verbatim>\<open>get_entities\<close> belongs to the library \<open>seqeval\<close>, not
  to this repository: \<open>decoding\<close> takes it as the parameter \<open>ge\<close>, a function that
  returns for every tag segment. The offsets are positions in the segment, so they are
  natural numbers.
\<close>

type_synonym entity = "string \<times> nat \<times> nat"

text \<open>
  \<^verbatim>\<open>for sub_text, sub_tag_seq in zip(sub_texts, sub_tag_seqs):
      ents_list.append((sub_text, get_entities(sub_tag_seq, suffix=False)))\<close>
  The first component of every pair is the segment's text.
\<close>

definition ents_list ::
  "('t list \<Rightarrow> entity list) \<Rightarrow> ustr list \<Rightarrow> 't list list \<Rightarrow> (ustr \<times> entity list) list" where
  "ents_list ge sub_texts sub_tag_seqs =
     map (\<lambda>(sub_text, sub_tag_seq). (sub_text, ge sub_tag_seq)) (zip sub_texts sub_tag_seqs)"

subsection \<open>The aggregator\<close>

text \<open>
  One round of the inner loop \<^verbatim>\<open>for ent in ent_list\<close>, on the state
  \<open>(sub_aps, sub_no_a_words)\<close>. The loop variable that the source calls
  \<open>sub_tag_seq\<close> is bound to the first component of the pair of \<open>ents_list\<close>. The
  \<open>else\<close> branch evaluates \<^verbatim>\<open>ent_name == "Opinion"\<close> and drops the result.
\<close>

fun ent_step ::
  "ustr \<Rightarrow> entity \<Rightarrow> ustr list list \<times> ustr list \<Rightarrow> ustr list list \<times> ustr list" where
  "ent_step sub_tag_seq (ent_name, start, end) (sub_aps, sub_no_a_words) =
     (if ent_name = ''Aspect'' then
        (let aspect = slice sub_tag_seq start (end + 1);
             sub_aps = sub_aps @ [[aspect]]
         in if length sub_no_a_words > 0
            then (extend_last sub_aps sub_no_a_words, [])
            else (sub_aps, sub_no_a_words))
      else
        (let opinion = slice sub_tag_seq start (end + 1)
         in if length sub_aps > 0
            then (extend_last sub_aps [opinion], sub_no_a_words)
            else (sub_aps, sub_no_a_words @ [opinion])))"

fun ent_loop ::
  "ustr \<Rightarrow> entity list \<Rightarrow> ustr list list \<times> ustr list \<Rightarrow> ustr list list \<times> ustr list" where
  "ent_loop sub_tag_seq [] st = st"
| "ent_loop sub_tag_seq (ent # ent_list) st =
     ent_loop sub_tag_seq ent_list (ent_step sub_tag_seq ent st)"

text \<open>
  One round of the outer loop \<^verbatim>\<open>for sub_tag_seq, ent_list in ents_list\<close>, on the
  state \<open>(aps, no_a_words)\<close>.
\<close>

fun seg_step ::
  "ustr \<times> entity list \<Rightarrow> ustr list list \<times> ustr list \<Rightarrow> ustr list list \<times> ustr list" where
  "seg_step (sub_tag_seq, ent_list) (aps, no_a_words) =
     (case ent_loop sub_tag_seq ent_list ([], []) of
        (sub_aps, sub_no_a_words) \<Rightarrow>
          if sub_aps \<noteq> [] then
            (let aps = aps @ sub_aps
             in if length no_a_words > 0
                then (extend_last aps no_a_words, [])
                else (aps, no_a_words))
          else if sub_no_a_words \<noteq> [] then
            (if length aps > 0
             then (extend_last aps sub_no_a_words, no_a_words)
             else (aps, no_a_words @ sub_no_a_words))
          else (aps, no_a_words))"

fun seg_loop ::
  "(ustr \<times> entity list) list \<Rightarrow> ustr list list \<times> ustr list
     \<Rightarrow> ustr list list \<times> ustr list" where
  "seg_loop [] st = st"
| "seg_loop (seg # segs) st = seg_loop segs (seg_step seg st)"

text \<open>
  \<^verbatim>\<open>if no_a_words: no_a_words.insert(0, "None"); aps.append(no_a_words)\<close>
\<close>

definition finish :: "ustr list list \<times> ustr list \<Rightarrow> ustr list list" where
  "finish st =
     (case st of (aps, no_a_words) \<Rightarrow>
        if no_a_words \<noteq> [] then aps @ [ascii ''None'' # no_a_words] else aps)"

text \<open>The whole function. A failed \<open>assert\<close> is the only raise of the source.\<close>

definition decoding ::
  "('t list \<Rightarrow> entity list) \<Rightarrow> ustr \<Rightarrow> 't list \<Rightarrow> error + ustr list list" where
  "decoding ge text tag_seq =
     (if length text \<noteq> length tag_seq
      then Inl (AssertionError (assert_message (length text) (length tag_seq)))
      else
        (case segment text tag_seq of
           (sub_texts, sub_tag_seqs) \<Rightarrow>
             Inr (finish (seg_loop (ents_list ge sub_texts sub_tag_seqs) ([], [])))))"

subsection \<open>The accumulators as objects of a store\<close>

text \<open>
  A Python list is a mutable object, and the source changes its accumulators in place:
  \<open>append\<close>, \<open>extend\<close>, \<open>clear\<close>, \<open>insert\<close>, and \<open>aps[-1].extend(\<dots>)\<close> on a group
  that \<open>aps\<close> and \<open>sub_aps\<close> share. Here the accumulators and the groups are objects
  of a store, a list of objects addressed by position; a new list gets the next free
  address. An object is a list of strings (a group, \<open>no_a_words\<close>, \<open>sub_no_a_words\<close>)
  or a list of references to groups (\<open>aps\<close>, \<open>sub_aps\<close>). The lists of the segmenter
  and \<open>ents_list\<close> are built and read within the call and never shared, so they stay
  values.
\<close>

datatype obj = Strs "ustr list" | Refs "nat list"

type_synonym heap = "obj list"

fun strs_of :: "obj \<Rightarrow> ustr list" where
  "strs_of (Strs ws) = ws"
| "strs_of (Refs rs) = []"

fun refs_of :: "obj \<Rightarrow> nat list" where
  "refs_of (Refs rs) = rs"
| "refs_of (Strs ws) = []"

text \<open>\<open>a[-1]\<close>, \<open>a.append(r)\<close> and \<open>a.extend(b)\<close> on lists of groups; \<open>a.extend(b)\<close>,
  \<open>a.append(w)\<close>, \<open>a.clear()\<close> and \<open>a.insert(0, w)\<close> on lists of strings.\<close>

definition last_ref :: "nat \<Rightarrow> heap \<Rightarrow> nat" where
  "last_ref a h = last (refs_of (h ! a))"

definition list_append_ref :: "nat \<Rightarrow> nat \<Rightarrow> heap \<Rightarrow> heap" where
  "list_append_ref a r h = h[a := Refs (refs_of (h ! a) @ [r])]"

definition list_extend_refs :: "nat \<Rightarrow> nat \<Rightarrow> heap \<Rightarrow> heap" where
  "list_extend_refs a b h = h[a := Refs (refs_of (h ! a) @ refs_of (h ! b))]"

definition strs_extend :: "nat \<Rightarrow> nat \<Rightarrow> heap \<Rightarrow> heap" where
  "strs_extend a b h = h[a := Strs (strs_of (h ! a) @ strs_of (h ! b))]"

definition strs_append :: "nat \<Rightarrow> ustr \<Rightarrow> heap \<Rightarrow> heap" where
  "strs_append a w h = h[a := Strs (strs_of (h ! a) @ [w])]"

definition strs_clear :: "nat \<Rightarrow> heap \<Rightarrow> heap" where
  "strs_clear a h = h[a := Strs []]"

definition strs_insert0 :: "nat \<Rightarrow> ustr \<Rightarrow> heap \<Rightarrow> heap" where
  "strs_insert0 a w h = h[a := Strs (w # strs_of (h ! a))]"

text \<open>
  The two loops on the store. \<open>sub_aps\<close>, \<open>sub_no_a_words\<close>, \<open>aps\<close> and
  \<open>no_a_words\<close> are the addresses of the accumulators; \<open>[aspect]\<close>, \<open>sub_aps = []\<close>
  and \<open>sub_no_a_words = []\<close> allocate.
\<close>

fun ent_step_h :: "ustr \<Rightarrow> entity \<Rightarrow> nat \<Rightarrow> nat \<Rightarrow> heap \<Rightarrow> heap" where
  "ent_step_h sub_tag_seq (ent_name, start, end) sub_aps sub_no_a_words h =
     (if ent_name = ''Aspect'' then
        (let aspect = slice sub_tag_seq start (end + 1);
             h = list_append_ref sub_aps (length h) (h @ [Strs [aspect]])
         in if length (strs_of (h ! sub_no_a_words)) > 0
            then strs_clear sub_no_a_words
                   (strs_extend (last_ref sub_aps h) sub_no_a_words h)
            else h)
      else
        (let opinion = slice sub_tag_seq start (end + 1)
         in if length (refs_of (h ! sub_aps)) > 0
            then strs_append (last_ref sub_aps h) opinion h
            else strs_append sub_no_a_words opinion h))"

fun ent_loop_h :: "ustr \<Rightarrow> entity list \<Rightarrow> nat \<Rightarrow> nat \<Rightarrow> heap \<Rightarrow> heap" where
  "ent_loop_h sub_tag_seq [] sub_aps sub_no_a_words h = h"
| "ent_loop_h sub_tag_seq (ent # ent_list) sub_aps sub_no_a_words h =
     ent_loop_h sub_tag_seq ent_list sub_aps sub_no_a_words
       (ent_step_h sub_tag_seq ent sub_aps sub_no_a_words h)"

fun seg_step_h :: "ustr \<times> entity list \<Rightarrow> nat \<Rightarrow> nat \<Rightarrow> heap \<Rightarrow> heap" where
  "seg_step_h (sub_tag_seq, ent_list) aps no_a_words h =
     (let sub_aps = length h;
          sub_no_a_words = length h + 1;
          h = ent_loop_h sub_tag_seq ent_list sub_aps sub_no_a_words (h @ [Refs [], Strs []])
      in if refs_of (h ! sub_aps) \<noteq> [] then
           (let h = list_extend_refs aps sub_aps h
            in if length (strs_of (h ! no_a_words)) > 0
               then strs_clear no_a_words (strs_extend (last_ref aps h) no_a_words h)
               else h)
         else if strs_of (h ! sub_no_a_words) \<noteq> [] then
           (if length (refs_of (h ! aps)) > 0
            then strs_extend (last_ref aps h) sub_no_a_words h
            else strs_extend no_a_words sub_no_a_words h)
         else h)"

fun seg_loop_h :: "(ustr \<times> entity list) list \<Rightarrow> nat \<Rightarrow> nat \<Rightarrow> heap \<Rightarrow> heap" where
  "seg_loop_h [] aps no_a_words h = h"
| "seg_loop_h (seg # segs) aps no_a_words h =
     seg_loop_h segs aps no_a_words (seg_step_h seg aps no_a_words h)"

text \<open>
  The function on a store \<open>h\<close>, which holds what earlier calls and the caller have
  left. It returns the address of \<open>aps\<close> and the store after the call.
\<close>

definition decoding_h ::
  "('t list \<Rightarrow> entity list) \<Rightarrow> ustr \<Rightarrow> 't list \<Rightarrow> heap \<Rightarrow> error + nat \<times> heap" where
  "decoding_h ge text tag_seq h =
     (if length text \<noteq> length tag_seq
      then Inl (AssertionError (assert_message (length text) (length tag_seq)))
      else
        (case segment text tag_seq of
           (sub_texts, sub_tag_seqs) \<Rightarrow>
             (let aps = length h;
                  no_a_words = length h + 1;
                  h = seg_loop_h (ents_list ge sub_texts sub_tag_seqs) aps no_a_words
                        (h @ [Refs [], Strs []])
              in if strs_of (h ! no_a_words) \<noteq> []
                 then Inr (aps, list_append_ref aps no_a_words
                                  (strs_insert0 no_a_words (ascii ''None'') h))
                 else Inr (aps, h))))"

text \<open>The value of the list of groups at an address.\<close>

definition value_of :: "heap \<Rightarrow> nat \<Rightarrow> ustr list list" where
  "value_of h aps = map (\<lambda>r. strs_of (h ! r)) (refs_of (h ! aps))"

text \<open>
  For the proofs: \<open>frame lo h h'\<close> says that the store has grown and that the objects
  below \<open>lo\<close> are unchanged; \<open>acc_rel lo h a n gs ws\<close> says that the list of groups
  at \<open>a\<close> and the list of strings at \<open>n\<close> hold the values \<open>gs\<close> and \<open>ws\<close>, with
  distinct groups, all at addresses from \<open>lo\<close> on.
\<close>

definition frame :: "nat \<Rightarrow> heap \<Rightarrow> heap \<Rightarrow> bool" where
  "frame lo h h' \<longleftrightarrow> length h \<le> length h' \<and> (\<forall>a. a < lo \<and> a < length h \<longrightarrow> h' ! a = h ! a)"

definition acc_rel :: "nat \<Rightarrow> heap \<Rightarrow> nat \<Rightarrow> nat \<Rightarrow> ustr list list \<Rightarrow> ustr list \<Rightarrow> bool" where
  "acc_rel lo h a n gs ws \<longleftrightarrow>
     lo \<le> a \<and> lo \<le> n \<and> a < length h \<and> n < length h \<and> a \<noteq> n \<and> h ! n = Strs ws
     \<and> (\<exists>rs. h ! a = Refs rs \<and> distinct rs
           \<and> (\<forall>r\<in>set rs. lo \<le> r \<and> r < length h \<and> r \<noteq> a \<and> r \<noteq> n)
           \<and> map (\<lambda>r. h ! r) rs = map Strs gs)"

subsection \<open>The application around the decoder\<close>

text \<open>
  \<^verbatim>\<open>opinion_words = list(set(ap[1:]))\<close> of \<open>predict\<close>: the opinions of a group without
  duplicates. The order of a Python set is not fixed, so the result is a set.
\<close>

definition opinion_words :: "ustr list \<Rightarrow> ustr set" where
  "opinion_words ap = set (drop 1 ap)"

subsection \<open>A span extractor for the begin/inside/outside scheme\<close>

text \<open>
  Modelled from the spec: the span extractor \<^verbatim>\<open>get_entities\<close> of the library
  \<open>seqeval\<close>, which is not part of the repository. The spec gives its contract: on a
  begin/inside/outside tagging it ignores the outside positions and returns, in order,
  one entity \<open>(label, start, end)\<close> for each maximal run of a \<open>B-label\<close> tag and the
  \<open>I-label\<close> tags that follow it, \<open>end\<close> inclusive. The general theorems about
  \<open>decoding\<close> hold for every extractor; this one supplies the concrete runs, on tag
  sequences where any extractor of that contract gives the same entities.
\<close>

datatype bio = Outside | Begin string | Inside string

definition parse_tag :: "string \<Rightarrow> bio" where
  "parse_tag t =
     (if take 2 t = ''B-'' then Begin (drop 2 t)
      else if take 2 t = ''I-'' then Inside (drop 2 t)
      else Outside)"

text \<open>The entity that is open at position \<open>i\<close>, if any, ends at \<open>i - 1\<close>.\<close>

fun close_chunk :: "(string \<times> nat) option \<Rightarrow> nat \<Rightarrow> entity list" where
  "close_chunk None i = []"
| "close_chunk (Some (label, begin)) i = [(label, begin, i - 1)]"

fun chunk_loop :: "string list \<Rightarrow> nat \<Rightarrow> (string \<times> nat) option \<Rightarrow> entity list" where
  "chunk_loop [] i cur = close_chunk cur i"
| "chunk_loop (t # ts) i cur =
     (case parse_tag t of
        Outside \<Rightarrow> close_chunk cur i @ chunk_loop ts (i + 1) None
      | Begin label \<Rightarrow> close_chunk cur i @ chunk_loop ts (i + 1) (Some (label, i))
      | Inside label \<Rightarrow>
          (case cur of
             None \<Rightarrow> chunk_loop ts (i + 1) (Some (label, i))
           | Some (label', begin) \<Rightarrow>
               if label' = label then chunk_loop ts (i + 1) cur
               else close_chunk cur i @ chunk_loop ts (i + 1) (Some (label, i))))"

definition get_entities :: "string list \<Rightarrow> entity list" where
  "get_entities seq = chunk_loop seq 0 None"

subsection \<open>Notions used in the statements\<close>

text \<open>The surface string of an entity in its segment: \<^verbatim>\<open>sub_tag_seq[start:end + 1]\<close>.\<close>

fun surface :: "ustr \<Rightarrow> entity \<Rightarrow> ustr" where
  "surface sub (ent_name, start, end) = slice sub start (end + 1)"

text \<open>The surface strings of all entities of a list of segments, in order.\<close>

definition surfaces :: "(ustr \<times> entity list) list \<Rightarrow> ustr list" where
  "surfaces segs = concat (map (\<lambda>(sub, ent_list). map (surface sub) ent_list) segs)"

text \<open>
  The surface strings of the entities of a segment that are named \<open>Aspect\<close>, and of
  those that have any other name, each in the extractor's order; then the same over a
  list of segments.
\<close>

definition aspects_in :: "ustr \<Rightarrow> entity list \<Rightarrow> ustr list" where
  "aspects_in sub ent_list = map (surface sub) (filter (\<lambda>ent. fst ent = ''Aspect'') ent_list)"

definition others_in :: "ustr \<Rightarrow> entity list \<Rightarrow> ustr list" where
  "others_in sub ent_list = map (surface sub) (filter (\<lambda>ent. fst ent \<noteq> ''Aspect'') ent_list)"

definition aspect_surfaces :: "(ustr \<times> entity list) list \<Rightarrow> ustr list" where
  "aspect_surfaces segs = concat (map (\<lambda>(sub, ent_list). aspects_in sub ent_list) segs)"

definition other_surfaces :: "(ustr \<times> entity list) list \<Rightarrow> ustr list" where
  "other_surfaces segs = concat (map (\<lambda>(sub, ent_list). others_in sub ent_list) segs)"

text \<open>
  The opinion slots of a state of a loop: the elements of the groups after their first,
  then the buffer.
\<close>

fun slots :: "ustr list list \<times> ustr list \<Rightarrow> ustr list" where
  "slots (aps, no_a_words) = concat (map tl aps) @ no_a_words"

text \<open>Whether a segment holds an aspect entity.\<close>

definition has_aspect :: "ustr \<times> entity list \<Rightarrow> bool" where
  "has_aspect seg = (''Aspect'' \<in> fst ` set (snd seg))"

text \<open>An entity with every name other than \<open>Aspect\<close> renamed to \<open>Opinion\<close>.\<close>

fun as_opinion :: "entity \<Rightarrow> entity" where
  "as_opinion (ent_name, start, end) =
     (if ent_name = ''Aspect'' then ent_name else ''Opinion'', start, end)"

text \<open>The segments of an input with their entities, as the outer loop receives them.\<close>

definition entities_of ::
  "('t list \<Rightarrow> entity list) \<Rightarrow> ustr \<Rightarrow> 't list \<Rightarrow> (ustr \<times> entity list) list" where
  "entities_of ge text tag_seq =
     (case segment text tag_seq of
        (sub_texts, sub_tag_seqs) \<Rightarrow> ents_list ge sub_texts sub_tag_seqs)"



section \<open>The segmenter\<close>

lemma slice_append_drop: "i \<le> j \<Longrightarrow> slice xs i j @ drop j xs = drop i xs"
proof -
  assume le: "i \<le> j"
  have "slice xs i j @ drop j xs = take (j - i) (drop i xs) @ drop (j - i) (drop i xs)"
    using le by (simp add: slice_def)
  then show ?thesis by (simp only: append_take_drop_id)
qed

lemma split_loop_eq:
  "split_loop text tag_seq sp (prev, st, sg) =
     (last (prev # sp),
      st @ map (\<lambda>(a, b). slice text a b) (zip (prev # sp) sp),
      sg @ map (\<lambda>(a, b). slice tag_seq a b) (zip (prev # sp) sp))"
  by (induction sp arbitrary: prev st sg) simp_all

lemma segment_eq:
  "segment text tag_seq =
     (map (\<lambda>(a, b). slice text a b) (zip (0 # splits text) (splits text))
        @ [drop (last (0 # splits text)) text],
      map (\<lambda>(a, b). slice tag_seq a b) (zip (0 # splits text) (splits text))
        @ [drop (last (0 # splits text)) tag_seq])"
  by (simp add: segment_def split_loop_eq)

lemma concat_slices:
  "sorted (prev # sp) \<Longrightarrow>
     concat (map (\<lambda>(a, b). slice xs a b) (zip (prev # sp) sp)) @ drop (last (prev # sp)) xs
       = drop prev xs"
proof (induction sp arbitrary: prev)
  case Nil
  then show ?case by simp
next
  case (Cons s rest)
  from Cons.prems have le: "prev \<le> s" and srt: "sorted (s # rest)" by simp_all
  have "concat (map (\<lambda>(a, b). slice xs a b) (zip (prev # s # rest) (s # rest)))
          @ drop (last (prev # s # rest)) xs
        = slice xs prev s @ (concat (map (\<lambda>(a, b). slice xs a b) (zip (s # rest) rest))
          @ drop (last (s # rest)) xs)" by simp
  also have "\<dots> = slice xs prev s @ drop s xs" using Cons.IH [OF srt] by simp
  also have "\<dots> = drop prev xs" using le by (rule slice_append_drop)
  finally show ?case .
qed

lemma splits_strict: "sorted_wrt (<) (splits text)"
  by (simp add: splits_def sorted_wrt_filter)

lemma splits_sorted: "sorted (0 # splits text)"
  using splits_strict [of "text"] by (simp add: strict_sorted_iff)

lemma splits_bound: "i \<in> set (splits text) \<Longrightarrow> i < length text \<and> text ! i \<in> set puncs"
  by (simp add: splits_def)

text \<open>
  C3. The segments partition the input: the text segments, concatenated in order, are
  the text; the tag segments, concatenated in order, are the tag sequence; the lengths
  of the text segments add up to the length of the text. This holds for every text and
  tag sequence, so in particular for those of equal length.
\<close>

theorem segment_concat:
  "concat (fst (segment text tag_seq)) = text
   \<and> concat (snd (segment text tag_seq)) = tag_seq
   \<and> sum_list (map length (fst (segment text tag_seq))) = length text"
proof -
  have a: "concat (fst (segment text tag_seq)) = text"
    using concat_slices [OF splits_sorted, of "text" "text"] by (simp add: segment_eq)
  have b: "concat (snd (segment text tag_seq)) = tag_seq"
    using concat_slices [OF splits_sorted, of tag_seq "text"] by (simp add: segment_eq)
  have "sum_list (map length (fst (segment text tag_seq)))
          = length (concat (fst (segment text tag_seq)))"
    by (simp only: length_concat)
  with a b show ?thesis by simp
qed

lemma segment_lengths:
  "length (fst (segment text tag_seq)) = length (splits text) + 1
   \<and> length (snd (segment text tag_seq)) = length (splits text) + 1"
  by (simp add: segment_eq)

lemma splits_set: "set (splits text) = {i. i < length text \<and> text ! i \<in> set puncs}"
  by (auto simp add: splits_def)

lemma splits_nth_less:
  "i < j \<Longrightarrow> j < length (splits text) \<Longrightarrow> splits text ! i < splits text ! j"
  using splits_strict [of "text"] by (simp add: sorted_wrt_nth_less)

lemma splits_nth_bound: "k < length (splits text) \<Longrightarrow> splits text ! k < length text"
  using splits_bound [of "splits text ! k" "text"] by simp

lemma slice_hd:
  "a < b \<Longrightarrow> a < length xs \<Longrightarrow> slice xs a b \<noteq> [] \<and> hd (slice xs a b) = xs ! a"
  by (simp add: slice_def hd_drop_conv_nth)

lemma drop_hd: "a < length xs \<Longrightarrow> drop a xs \<noteq> [] \<and> hd (drop a xs) = xs ! a"
  by (simp add: hd_drop_conv_nth)

lemma segment_nth:
  assumes "k < length (splits text)"
  shows "fst (segment text tag_seq) ! k = slice text ((0 # splits text) ! k) (splits text ! k)"
    and "snd (segment text tag_seq) ! k = slice tag_seq ((0 # splits text) ! k) (splits text ! k)"
  using assms by (simp_all add: segment_eq nth_append)

lemma segment_last:
  "fst (segment text tag_seq) ! length (splits text) = drop (last (0 # splits text)) text"
  "snd (segment text tag_seq) ! length (splits text) = drop (last (0 # splits text)) tag_seq"
  by (simp_all add: segment_eq nth_append)

lemma segment_Suc:
  assumes "k < length (splits text)"
  shows "fst (segment text tag_seq) ! Suc k \<noteq> []
         \<and> hd (fst (segment text tag_seq) ! Suc k) = text ! (splits text ! k)"
proof (cases "Suc k < length (splits text)")
  case True
  have "fst (segment text tag_seq) ! Suc k = slice text (splits text ! k) (splits text ! Suc k)"
    using segment_nth(1) [OF True, of tag_seq] by simp
  moreover have "splits text ! k < splits text ! Suc k"
    using splits_nth_less [of k "Suc k" "text"] True by simp
  ultimately show ?thesis using slice_hd splits_nth_bound [OF assms] by simp
next
  case False
  with assms have k: "Suc k = length (splits text)" by simp
  then have ne: "splits text \<noteq> []" by auto
  have "length (splits text) - 1 = k" using k by simp
  then have "last (0 # splits text) = splits text ! k"
    using ne by (simp add: last_conv_nth)
  then have "fst (segment text tag_seq) ! Suc k = drop (splits text ! k) text"
    using segment_last(1) [of "text" tag_seq] k by simp
  then show ?thesis using drop_hd [OF splits_nth_bound [OF assms]] by simp
qed

lemma splits_first:
  assumes "splits text \<noteq> []"
  shows "splits text ! 0 = 0 \<longleftrightarrow> text ! 0 \<in> set puncs"
proof
  assume "splits text ! 0 = 0"
  moreover have "splits text ! 0 \<in> set (splits text)" using assms by simp
  ultimately show "text ! 0 \<in> set puncs" using splits_bound [of 0 "text"] by simp
next
  assume p: "text ! 0 \<in> set puncs"
  have "0 < length text" using assms by (auto simp add: splits_def)
  with p have "0 \<in> set (splits text)" by (simp add: splits_set)
  then obtain j where j: "j < length (splits text)" "splits text ! j = 0"
    by (auto simp add: in_set_conv_nth)
  show "splits text ! 0 = 0"
  proof (cases "j = 0")
    case True
    with j show ?thesis by simp
  next
    case False
    then have "splits text ! 0 < splits text ! j" using j splits_nth_less [of 0 j "text"] by simp
    with j show ?thesis by simp
  qed
qed

lemma segment_first_empty:
  "fst (segment text tag_seq) ! 0 = [] \<longleftrightarrow> text = [] \<or> text ! 0 \<in> set puncs"
proof (cases "splits text = []")
  case True
  then have seg: "fst (segment text tag_seq) ! 0 = text" by (simp add: segment_eq)
  have "text ! 0 \<notin> set puncs" if "text \<noteq> []"
  proof
    assume "text ! 0 \<in> set puncs"
    with that have "0 \<in> set (splits text)" by (simp add: splits_set)
    with True show False by simp
  qed
  then show ?thesis using seg by auto
next
  case False
  then have k: "0 < length (splits text)" by simp
  have seg: "fst (segment text tag_seq) ! 0 = take (splits text ! 0) text"
    using segment_nth(1) [OF k, of tag_seq] by (simp add: slice_def)
  have ne: "text \<noteq> []" using splits_nth_bound [OF k] by auto
  show ?thesis using seg ne splits_first [OF False] by simp
qed

text \<open>
  C4 (as amended). The split indices are the positions of the text that hold one of the
  ten punctuation marks, in ascending order. There is one segment more than there are
  split indices. Segment \<open>k\<close> is the slice from the previous split index (0 for the
  first segment) up to, not including, split index \<open>k\<close>, and the last segment runs
  from the last split index to the end, so every segment after the first is not empty
  and starts with the punctuation mark at its split index. Only the first segment can
  be empty, and it is exactly when the text is empty or starts with a punctuation mark.
\<close>

theorem segment_boundaries:
  "puncs = [44, 46, 63, 59, 33, 65292, 12290, 65311, 65307, 65281]
   \<and> set (splits text) = {i. i < length text \<and> text ! i \<in> set puncs}
   \<and> sorted_wrt (<) (splits text)
   \<and> length (fst (segment text tag_seq)) = length (splits text) + 1
   \<and> length (snd (segment text tag_seq)) = length (splits text) + 1
   \<and> (\<forall>k < length (splits text).
        fst (segment text tag_seq) ! k = slice text ((0 # splits text) ! k) (splits text ! k)
        \<and> snd (segment text tag_seq) ! k
            = slice tag_seq ((0 # splits text) ! k) (splits text ! k)
        \<and> fst (segment text tag_seq) ! Suc k \<noteq> []
        \<and> hd (fst (segment text tag_seq) ! Suc k) = text ! (splits text ! k))
   \<and> fst (segment text tag_seq) ! length (splits text) = drop (last (0 # splits text)) text
   \<and> snd (segment text tag_seq) ! length (splits text)
        = drop (last (0 # splits text)) tag_seq
   \<and> (fst (segment text tag_seq) ! 0 = [] \<longleftrightarrow> text = [] \<or> text ! 0 \<in> set puncs)"
  using puncs_def splits_set [of "text"] splits_strict [of "text"] segment_lengths [of "text" tag_seq]
    segment_nth [of _ "text" tag_seq] segment_Suc [of _ "text" tag_seq]
    segment_last [of "text" tag_seq] segment_first_empty [of "text" tag_seq]
  by blast


theorem segment_boundaries_witness:
  "length (fst (segment (ascii '',a;b'') [''O'', ''B-Aspect'', ''O'', ''B-Opinion''])) = 3
   \<and> fst (segment (ascii '',a;b'') [''O'', ''B-Aspect'', ''O'', ''B-Opinion'']) ! 0 = []
   \<and> hd (fst (segment (ascii '',a;b'') [''O'', ''B-Aspect'', ''O'', ''B-Opinion'']) ! 1) = 44
   \<and> hd (fst (segment (ascii '',a;b'') [''O'', ''B-Aspect'', ''O'', ''B-Opinion'']) ! 2) = 59"
proof -
  let ?T = "ascii '',a;b''"
  let ?G = "[''O'', ''B-Aspect'', ''O'', ''B-Opinion'']"
  have sp: "splits ?T = [0, 2]" by (simp add: splits_def puncs_def ascii_def)
  note th = segment_boundaries [of ?T ?G]
  from th have "length (fst (segment ?T ?G)) = length (splits ?T) + 1" by (elim conjE)
  then have a: "length (fst (segment ?T ?G)) = 3" by (simp add: sp)
  from th have "fst (segment ?T ?G) ! 0 = [] \<longleftrightarrow> ?T = [] \<or> ?T ! 0 \<in> set puncs"
    by (elim conjE)
  then have b: "fst (segment ?T ?G) ! 0 = []" by (simp add: puncs_def ascii_def)
  from th have all: "\<forall>k < length (splits ?T).
      hd (fst (segment ?T ?G) ! Suc k) = ?T ! (splits ?T ! k)" by (elim conjE) blast
  from all have c: "hd (fst (segment ?T ?G) ! Suc 0) = ?T ! (splits ?T ! 0)"
    by (simp add: sp)
  have "(1::nat) < length (splits ?T)" by (simp add: sp)
  with all have d: "hd (fst (segment ?T ?G) ! Suc 1) = ?T ! (splits ?T ! 1)" by blast
  have t0: "?T ! 0 = 44" and t2: "?T ! 2 = 59" by (simp_all add: ascii_def)
  from c have c': "hd (fst (segment ?T ?G) ! 1) = 44" unfolding sp using t0 by simp
  from d have d': "hd (fst (segment ?T ?G) ! 2) = 59" unfolding sp using t2
    by (simp add: numeral_2_eq_2)
  from a b c' d' show ?thesis by blast
qed

text \<open>
  C4 as stated fails in its last part: in \<open>a,,b\<close> the two punctuation marks are
  adjacent, and no segment is empty.
\<close>

theorem adjacent_punctuation_counterexample:
  "splits (ascii ''a,,b'') = [1, 2]
   \<and> fst (segment (ascii ''a,,b'') [''O'', ''O'', ''O'', ''O''])
       = [ascii ''a'', ascii '','', ascii '',b'']
   \<and> [] \<notin> set (fst (segment (ascii ''a,,b'') [''O'', ''O'', ''O'', ''O'']))"
  by (simp add: segment_def splits_def puncs_def slice_def ascii_def)

section \<open>The assertion\<close>










section \<open>The aggregator\<close>

lemma extend_last_snoc: "extend_last (xs @ [x]) ys = xs @ [x @ ys]"
  by (simp add: extend_last_def)

lemma extend_last_Nil2: "xs \<noteq> [] \<Longrightarrow> extend_last xs [] = xs"
  by (simp add: extend_last_def)

lemma extend_last_not_Nil: "extend_last xs ys \<noteq> []"
  by (simp add: extend_last_def)

lemma extend_last_twice: "extend_last (extend_last xs ys) zs = extend_last xs (ys @ zs)"
  by (simp add: extend_last_def)

lemma extend_last_append: "ys \<noteq> [] \<Longrightarrow> extend_last (xs @ ys) zs = xs @ extend_last ys zs"
  by (simp add: extend_last_def butlast_append)

lemma ent_step_aspect:
  "ent_step sub (''Aspect'', s, e) (sa, nw) = (sa @ [slice sub s (e + 1) # nw], [])"
  by (simp add: Let_def extend_last_snoc)

lemma ent_step_other:
  "n \<noteq> ''Aspect'' \<Longrightarrow>
     ent_step sub (n, s, e) (sa, nw) =
       (if sa \<noteq> [] then (extend_last sa [slice sub s (e + 1)], nw)
        else ([], nw @ [slice sub s (e + 1)]))"
  by simp

lemma ent_step_nonempty: "sa \<noteq> [] \<Longrightarrow> fst (ent_step sub ent (sa, nw)) \<noteq> []"
  by (cases ent) (simp add: Let_def extend_last_not_Nil)

lemma ent_loop_nonempty: "sa \<noteq> [] \<Longrightarrow> fst (ent_loop sub ents (sa, nw)) \<noteq> []"
proof (induction ents arbitrary: sa nw)
  case Nil
  then show ?case by simp
next
  case (Cons ent ents)
  obtain sa' nw' where st: "ent_step sub ent (sa, nw) = (sa', nw')"
    by (cases "ent_step sub ent (sa, nw)")
  with ent_step_nonempty [OF Cons.prems, of sub ent nw] have "sa' \<noteq> []" by simp
  then show ?case using Cons.IH st by simp
qed

lemma ent_loop_no_aspect:
  "''Aspect'' \<notin> fst ` set ents \<Longrightarrow>
     ent_loop sub ents ([], nw) = ([], nw @ map (surface sub) ents)"
proof (induction ents arbitrary: nw)
  case Nil
  then show ?case by simp
next
  case (Cons ent ents)
  obtain n s e where ent: "ent = (n, s, e)" by (cases ent)
  with Cons.prems have n: "n \<noteq> ''Aspect''" and rest: "''Aspect'' \<notin> fst ` set ents"
    by auto
  show ?case using Cons.IH [OF rest] n by (simp add: ent)
qed

lemma ent_loop_has_aspect:
  "''Aspect'' \<in> fst ` set ents \<Longrightarrow> fst (ent_loop sub ents (sa, nw)) \<noteq> []"
proof (induction ents arbitrary: sa nw)
  case Nil
  then show ?case by simp
next
  case (Cons ent ents)
  obtain n s e where ent: "ent = (n, s, e)" by (cases ent)
  obtain sa' nw' where st: "ent_step sub ent (sa, nw) = (sa', nw')"
    by (cases "ent_step sub ent (sa, nw)")
  show ?case
  proof (cases "n = ''Aspect''")
    case True
    with st ent have "sa' \<noteq> []" by (auto simp add: Let_def extend_last_not_Nil split: if_splits)
    then show ?thesis using ent_loop_nonempty [of sa' sub ents nw'] st by simp
  next
    case False
    with Cons.prems ent have "''Aspect'' \<in> fst ` set ents" by auto
    then show ?thesis using Cons.IH st by simp
  qed
qed

lemma surfaces_Nil: "surfaces [] = []"
  by (simp add: surfaces_def)

lemma surfaces_Cons: "surfaces ((sub, ents) # segs) = map (surface sub) ents @ surfaces segs"
  by (simp add: surfaces_def)

lemma surfaces_append: "surfaces (xs @ ys) = surfaces xs @ surfaces ys"
  by (simp add: surfaces_def)

lemma seg_step_no_aspect:
  "\<not> has_aspect (sub, ents) \<Longrightarrow>
     seg_step (sub, ents) ([], nw) = ([], nw @ map (surface sub) ents)"
  by (simp add: has_aspect_def ent_loop_no_aspect)

lemma seg_loop_no_aspect:
  "(\<And>s. s \<in> set segs \<Longrightarrow> \<not> has_aspect s) \<Longrightarrow>
     seg_loop segs ([], nw) = ([], nw @ surfaces segs)"
proof (induction segs arbitrary: nw)
  case Nil
  then show ?case by (simp add: surfaces_Nil)
next
  case (Cons seg segs)
  obtain sub ents where seg: "seg = (sub, ents)" by (cases seg)
  have "\<not> has_aspect (sub, ents)" using Cons.prems seg by simp
  then have "seg_step seg ([], nw) = ([], nw @ map (surface sub) ents)"
    unfolding seg by (rule seg_step_no_aspect)
  then show ?case using Cons.IH Cons.prems by (simp add: seg surfaces_Cons)
qed

lemma seg_step_aspect:
  "has_aspect (sub, ents) \<Longrightarrow>
     seg_step (sub, ents) (aps, nw) =
       (extend_last (aps @ fst (ent_loop sub ents ([], []))) nw, [])"
proof -
  assume "has_aspect (sub, ents)"
  then have ne: "fst (ent_loop sub ents ([], [])) \<noteq> []"
    by (simp add: has_aspect_def ent_loop_has_aspect)
  obtain sa sn where el: "ent_loop sub ents ([], []) = (sa, sn)"
    by (cases "ent_loop sub ents ([], [])")
  with ne have "sa \<noteq> []" by simp
  then show ?thesis by (simp add: el Let_def extend_last_Nil2)
qed

lemma seg_loop_append: "seg_loop (xs @ ys) st = seg_loop ys (seg_loop xs st)"
  by (induction xs arbitrary: st) simp_all

lemma seg_step_after:
  "G \<noteq> [] \<Longrightarrow> \<exists>ws gs. seg_step seg (G, []) = (extend_last G ws @ gs, [])"
proof -
  assume G: "G \<noteq> []"
  obtain sub ents where seg: "seg = (sub, ents)" by (cases seg)
  obtain sa sn where el: "ent_loop sub ents ([], []) = (sa, sn)"
    by (cases "ent_loop sub ents ([], [])")
  show ?thesis
  proof (cases "sa = []")
    case False
    then have "seg_step seg (G, []) = (extend_last G [] @ sa, [])"
      using G by (simp add: seg el Let_def extend_last_Nil2)
    then show ?thesis by blast
  next
    case True
    then have "seg_step seg (G, []) = (extend_last G sn @ [], [])"
      using G by (simp add: seg el Let_def extend_last_Nil2)
    then show ?thesis by blast
  qed
qed

lemma seg_loop_after:
  "G \<noteq> [] \<Longrightarrow> \<exists>ws gs. seg_loop segs (G, []) = (extend_last G ws @ gs, [])"
proof (induction segs arbitrary: G)
  case Nil
  then have "seg_loop [] (G, []) = (extend_last G [] @ [], [])"
    by (simp add: extend_last_Nil2)
  then show ?case by blast
next
  case (Cons seg segs)
  from seg_step_after [OF Cons.prems] obtain ws gs
    where st: "seg_step seg (G, []) = (extend_last G ws @ gs, [])" by blast
  have "extend_last G ws @ gs \<noteq> []" by (simp add: extend_last_not_Nil)
  from Cons.IH [OF this] obtain ws' gs'
    where lp: "seg_loop segs (extend_last G ws @ gs, []) =
                 (extend_last (extend_last G ws @ gs) ws' @ gs', [])" by blast
  show ?case
  proof (cases "gs = []")
    case True
    with st lp have "seg_loop (seg # segs) (G, []) = (extend_last G (ws @ ws') @ gs', [])"
      by (simp add: extend_last_twice)
    then show ?thesis by blast
  next
    case False
    with st lp have "seg_loop (seg # segs) (G, []) =
        (extend_last G ws @ (extend_last gs ws' @ gs'), [])"
      by (simp add: extend_last_append)
    then show ?thesis by blast
  qed
qed

section \<open>The decoder\<close>

lemma entities_of_fst: "map fst (entities_of ge text tag_seq) = fst (segment text tag_seq)"
proof -
  obtain A B where seg: "segment text tag_seq = (A, B)" by (cases "segment text tag_seq")
  with segment_lengths [of "text" tag_seq] have len: "length A = length B" by simp
  have "map fst (ents_list ge A B) = map fst (zip A B)"
    by (simp add: ents_list_def case_prod_unfold comp_def)
  also have "\<dots> = A" using len by simp
  finally show ?thesis by (simp add: entities_of_def seg)
qed


lemma decoding_eq:
  "length text = length tag_seq \<Longrightarrow>
     decoding ge text tag_seq = Inr (finish (seg_loop (entities_of ge text tag_seq) ([], [])))"
  by (simp add: decoding_def entities_of_def split: prod.splits)

lemmas run_defs = decoding_def segment_def splits_def puncs_def slice_def ascii_def
  ents_list_def get_entities_def parse_tag_def finish_def extend_last_def

lemma extend_last_heads:
  "xs \<noteq> [] \<Longrightarrow> [] \<notin> set xs \<Longrightarrow>
     [] \<notin> set (extend_last xs ys) \<and> map hd (extend_last xs ys) = map hd xs
     \<and> concat (map tl (extend_last xs ys)) = concat (map tl xs) @ ys"
proof -
  assume ne: "xs \<noteq> []" and nn: "[] \<notin> set xs"
  from ne obtain us u where xs: "xs = us @ [u]" by (cases xs rule: rev_cases) auto
  with nn have u: "u \<noteq> []" and us: "[] \<notin> set us" by auto
  show ?thesis using u us by (simp add: xs extend_last_snoc)
qed

text \<open>The invariant of both loops: no group is empty.\<close>

lemma ent_step_groups:
  assumes "[] \<notin> set sa" and "sa \<noteq> [] \<longrightarrow> nw = []"
  shows "[] \<notin> set (fst (ent_step sub ent (sa, nw)))
    \<and> (fst (ent_step sub ent (sa, nw)) \<noteq> [] \<longrightarrow> snd (ent_step sub ent (sa, nw)) = [])
    \<and> map hd (fst (ent_step sub ent (sa, nw))) = map hd sa @ aspects_in sub [ent]
    \<and> mset (slots (ent_step sub ent (sa, nw))) = mset (slots (sa, nw)) + mset (others_in sub [ent])"
proof -
  obtain n s e where ent: "ent = (n, s, e)" by (cases ent)
  show ?thesis
  proof (cases "n = ''Aspect''")
    case True
    then show ?thesis using assms
      by (simp add: ent ent_step_aspect aspects_in_def others_in_def del: ent_step.simps)
  next
    case False
    show ?thesis
    proof (cases "sa = []")
      case True
      then show ?thesis using False
        by (simp add: ent ent_step_other aspects_in_def others_in_def del: ent_step.simps)
    next
      case ne: False
      from extend_last_heads [OF ne assms(1), of "[slice sub s (e + 1)]"] ne assms(2) False
      show ?thesis
        by (simp add: ent ent_step_other aspects_in_def others_in_def del: ent_step.simps)
    qed
  qed
qed

lemma ent_loop_groups:
  assumes "[] \<notin> set sa" and "sa \<noteq> [] \<longrightarrow> nw = []"
  shows "[] \<notin> set (fst (ent_loop sub ents (sa, nw)))
    \<and> (fst (ent_loop sub ents (sa, nw)) \<noteq> [] \<longrightarrow> snd (ent_loop sub ents (sa, nw)) = [])
    \<and> map hd (fst (ent_loop sub ents (sa, nw))) = map hd sa @ aspects_in sub ents
    \<and> mset (slots (ent_loop sub ents (sa, nw))) = mset (slots (sa, nw)) + mset (others_in sub ents)"
  using assms
proof (induction ents arbitrary: sa nw)
  case Nil
  then show ?case by (simp add: aspects_in_def others_in_def)
next
  case (Cons ent ents)
  obtain sa' nw' where st: "ent_step sub ent (sa, nw) = (sa', nw')"
    by (cases "ent_step sub ent (sa, nw)")
  from ent_step_groups [OF Cons.prems, of sub ent] st
  have a: "[] \<notin> set sa'" and b: "sa' \<noteq> [] \<longrightarrow> nw' = []"
    and c: "map hd sa' = map hd sa @ aspects_in sub [ent]"
    and d: "mset (slots (sa', nw')) = mset (slots (sa, nw)) + mset (others_in sub [ent])"
    by simp_all
  have ai: "aspects_in sub (ent # ents) = aspects_in sub [ent] @ aspects_in sub ents"
    by (simp add: aspects_in_def)
  have oi: "others_in sub (ent # ents) = others_in sub [ent] @ others_in sub ents"
    by (simp add: others_in_def)
  from Cons.IH [OF a b] c d show ?case
    by (simp add: st ai oi del: ent_step.simps slots.simps)
qed

lemma seg_step_groups:
  assumes "[] \<notin> set aps" and "aps \<noteq> [] \<longrightarrow> nw = []"
  shows "[] \<notin> set (fst (seg_step (sub, ents) (aps, nw)))
    \<and> (fst (seg_step (sub, ents) (aps, nw)) \<noteq> [] \<longrightarrow> snd (seg_step (sub, ents) (aps, nw)) = [])
    \<and> map hd (fst (seg_step (sub, ents) (aps, nw))) = map hd aps @ aspects_in sub ents
    \<and> mset (slots (seg_step (sub, ents) (aps, nw))) = mset (slots (aps, nw)) + mset (others_in sub ents)"
proof -
  obtain sa sn where el: "ent_loop sub ents ([], []) = (sa, sn)"
    by (cases "ent_loop sub ents ([], [])")
  from ent_loop_groups [of "[]" "[]" sub ents] el
  have a: "[] \<notin> set sa" and b: "sa \<noteq> [] \<longrightarrow> sn = []"
    and c: "map hd sa = aspects_in sub ents"
    and d: "mset (concat (map tl sa) @ sn) = mset (others_in sub ents)"
    by simp_all
  show ?thesis
  proof (cases "sa = []")
    case sa: False
    then have sn: "sn = []" using b by simp
    have ne: "aps @ sa \<noteq> []" using sa by simp
    have nn: "[] \<notin> set (aps @ sa)" using a assms(1) by simp
    have step: "seg_step (sub, ents) (aps, nw) = (extend_last (aps @ sa) nw, [])"
      using sa by (simp add: el Let_def extend_last_Nil2)
    from extend_last_heads [OF ne nn, of nw] c d sn assms show ?thesis
      unfolding step by (auto simp add: extend_last_not_Nil)
  next
    case sa: True
    show ?thesis
    proof (cases "sn = []")
      case True
      with sa c d assms show ?thesis by (simp add: el)
    next
      case sn: False
      show ?thesis
      proof (cases "aps = []")
        case True
        with sa sn c d assms show ?thesis by (simp add: el)
      next
        case ne: False
        then have nw: "nw = []" using assms(2) by simp
        have step: "seg_step (sub, ents) (aps, nw) = (extend_last aps sn, nw)"
          using sa sn ne by (simp add: el)
        from extend_last_heads [OF ne assms(1), of sn] sa c d nw show ?thesis
          unfolding step by (auto simp add: extend_last_not_Nil)
      qed
    qed
  qed
qed

lemma aspect_surfaces_Cons:
  "aspect_surfaces ((sub, ents) # segs) = aspects_in sub ents @ aspect_surfaces segs"
  by (simp add: aspect_surfaces_def)

lemma other_surfaces_Cons:
  "other_surfaces ((sub, ents) # segs) = others_in sub ents @ other_surfaces segs"
  by (simp add: other_surfaces_def)

lemma seg_loop_groups:
  assumes "[] \<notin> set aps" and "aps \<noteq> [] \<longrightarrow> nw = []"
  shows "[] \<notin> set (fst (seg_loop segs (aps, nw)))
    \<and> (fst (seg_loop segs (aps, nw)) \<noteq> [] \<longrightarrow> snd (seg_loop segs (aps, nw)) = [])
    \<and> map hd (fst (seg_loop segs (aps, nw))) = map hd aps @ aspect_surfaces segs
    \<and> mset (slots (seg_loop segs (aps, nw))) = mset (slots (aps, nw)) + mset (other_surfaces segs)"
  using assms
proof (induction segs arbitrary: aps nw)
  case Nil
  then show ?case by (simp add: aspect_surfaces_def other_surfaces_def)
next
  case (Cons seg segs)
  obtain sub ents where seg: "seg = (sub, ents)" by (cases seg)
  obtain aps' nw' where st: "seg_step (sub, ents) (aps, nw) = (aps', nw')"
    by (cases "seg_step (sub, ents) (aps, nw)")
  from seg_step_groups [OF Cons.prems, of sub ents] st
  have a: "[] \<notin> set aps'" and b: "aps' \<noteq> [] \<longrightarrow> nw' = []"
    and c: "map hd aps' = map hd aps @ aspects_in sub ents"
    and d: "mset (slots (aps', nw')) = mset (slots (aps, nw)) + mset (others_in sub ents)"
    by simp_all
  from Cons.IH [OF a b] c d show ?case
    by (simp add: seg st aspect_surfaces_Cons other_surfaces_Cons
          del: seg_step.simps slots.simps)
qed

lemma finish_groups:
  assumes "[] \<notin> set aps"
  shows "[] \<notin> set (finish (aps, nw))
    \<and> map hd (finish (aps, nw)) = map hd aps @ (if nw = [] then [] else [ascii ''None''])
    \<and> concat (map tl (finish (aps, nw))) = slots (aps, nw)"
  using assms by (simp add: finish_def)

lemma ents_list_zip: "ents_list ge A B = zip A (map ge B)"
  by (simp add: ents_list_def zip_map2)

lemma entities_of_zip:
  "entities_of ge text tag_seq =
     zip (fst (segment text tag_seq)) (map ge (snd (segment text tag_seq)))"
  by (simp add: entities_of_def ents_list_zip split: prod.splits)

lemma decoding_groups:
  assumes "length text = length tag_seq"
  shows "\<exists>aps. decoding ge text tag_seq = Inr aps \<and> [] \<notin> set aps
    \<and> map hd aps = aspect_surfaces (entities_of ge text tag_seq)
         @ (if aspect_surfaces (entities_of ge text tag_seq) = []
               \<and> other_surfaces (entities_of ge text tag_seq) \<noteq> []
            then [ascii ''None''] else [])
    \<and> mset (concat (map tl aps)) = mset (other_surfaces (entities_of ge text tag_seq))"
proof -
  let ?E = "entities_of ge text tag_seq"
  obtain aps nw where st: "seg_loop ?E ([], []) = (aps, nw)"
    by (cases "seg_loop ?E ([], [])")
  from seg_loop_groups [of "[]" "[]" ?E] st
  have a: "[] \<notin> set aps" and b: "aps \<noteq> [] \<longrightarrow> nw = []"
    and c: "map hd aps = aspect_surfaces ?E"
    and d: "mset (concat (map tl aps) @ nw) = mset (other_surfaces ?E)"
    by simp_all
  have dec: "decoding ge text tag_seq = Inr (finish (aps, nw))"
    using assms st by (simp add: decoding_eq)
  have e: "aps = [] \<longleftrightarrow> aspect_surfaces ?E = []" using c by (metis map_is_Nil_conv)
  have f: "nw \<noteq> [] \<longleftrightarrow> aspect_surfaces ?E = [] \<and> other_surfaces ?E \<noteq> []"
  proof (cases "aps = []")
    case True
    with d have "mset nw = mset (other_surfaces ?E)" by simp
    then have "nw = [] \<longleftrightarrow> other_surfaces ?E = []" by (metis mset_zero_iff)
    with True e show ?thesis by simp
  next
    case False
    with b e show ?thesis by simp
  qed
  from finish_groups [OF a, of nw] c d f
  have "[] \<notin> set (finish (aps, nw))
    \<and> map hd (finish (aps, nw)) = aspect_surfaces ?E
         @ (if aspect_surfaces ?E = [] \<and> other_surfaces ?E \<noteq> [] then [ascii ''None''] else [])
    \<and> mset (concat (map tl (finish (aps, nw)))) = mset (other_surfaces ?E)"
    by auto
  with dec show ?thesis by blast
qed

text \<open>
  C2 (as amended). The string that opens an aspect group is a slice of the segment's
  character text, not of its tag sequence. The pairs that the outer loop receives are
  the text segments of the segmenter, each with the entities that the extractor finds
  in the tag segment at the same position. For a text and a tag sequence of equal
  length, no group of the result is empty, and the first elements of the groups are, in
  order, the slices \<open>[start, end]\<close> (\<open>end\<close> inclusive) of the text segments at the
  offsets of the entities named \<open>Aspect\<close>; the sentinel \<open>None\<close> follows only when
  there is no such entity and there are others. In one step of the inner loop, an
  entity named \<open>Aspect\<close> appends the group that starts with that slice of the loop's
  segment text, followed by the opinions buffered in the segment so far.
\<close>

theorem aspect_sliced_from_text:
  assumes "length text = length tag_seq"
  shows "entities_of ge text tag_seq =
           zip (fst (segment text tag_seq)) (map ge (snd (segment text tag_seq)))
    \<and> (\<exists>aps. decoding ge text tag_seq = Inr aps \<and> [] \<notin> set aps
          \<and> map hd aps = aspect_surfaces (entities_of ge text tag_seq)
               @ (if aspect_surfaces (entities_of ge text tag_seq) = []
                     \<and> other_surfaces (entities_of ge text tag_seq) \<noteq> []
                  then [ascii ''None''] else []))
    \<and> ent_step sub_text (''Aspect'', start, end) (sub_aps, sub_no_a_words) =
        (sub_aps @ [slice sub_text start (end + 1) # sub_no_a_words], [])"
proof -
  from decoding_groups [OF assms, of ge]
  have "\<exists>aps. decoding ge text tag_seq = Inr aps \<and> [] \<notin> set aps
          \<and> map hd aps = aspect_surfaces (entities_of ge text tag_seq)
               @ (if aspect_surfaces (entities_of ge text tag_seq) = []
                     \<and> other_surfaces (entities_of ge text tag_seq) \<noteq> []
                  then [ascii ''None''] else [])" by blast
  then show ?thesis using entities_of_zip [of ge "text" tag_seq]
    by (simp only: ent_step_aspect simp_thms)
qed

theorem aspect_sliced_from_text_witness:
  "segment (ascii ''ab'') [''B-Aspect'', ''O'']  = ([ascii ''ab''], [[''B-Aspect'', ''O'']])
   \<and> (\<exists>aps. decoding get_entities (ascii ''ab'') [''B-Aspect'', ''O''] = Inr aps
         \<and> map hd aps = [ascii ''a''])"
proof -
  let ?T = "ascii ''ab''"
  let ?G = "[''B-Aspect'', ''O'']"
  have len: "length ?T = length ?G" by (simp add: ascii_def)
  have seg: "segment ?T ?G = ([ascii ''ab''], [[''B-Aspect'', ''O'']])"
    by (simp add: segment_def splits_def puncs_def slice_def ascii_def)
  have ents: "entities_of get_entities ?T ?G = [(ascii ''ab'', [(''Aspect'', 0, 0)])]"
    by (simp add: entities_of_def run_defs)
  have asp: "aspect_surfaces (entities_of get_entities ?T ?G) = [ascii ''a'']"
    unfolding ents by (simp add: aspect_surfaces_def aspects_in_def slice_def ascii_def)
  from aspect_sliced_from_text [OF len, of get_entities]
  obtain aps where "decoding get_entities ?T ?G = Inr aps"
    and "map hd aps = aspect_surfaces (entities_of get_entities ?T ?G)
           @ (if aspect_surfaces (entities_of get_entities ?T ?G) = []
                 \<and> other_surfaces (entities_of get_entities ?T ?G) \<noteq> []
              then [ascii ''None''] else [])"
    by blast
  then have r: "decoding get_entities ?T ?G = Inr aps \<and> map hd aps = [ascii ''a'']"
    by (simp add: asp)
  show ?thesis
  proof (intro conjI exI [of _ aps])
    show "segment ?T ?G = ([ascii ''ab''], [[''B-Aspect'', ''O'']])" by (rule seg)
    show "decoding get_entities ?T ?G = Inr aps" using r by (rule conjunct1)
    show "map hd aps = [ascii ''a'']" using r by (rule conjunct2)
  qed
qed

text \<open>
  C2 as stated fails: with the same tag sequence and the same entity, two texts give
  two different aspect strings, each the slice of its text. A slice of the tag sequence
  would be the same for both.
\<close>

theorem aspect_from_tags_counterexample:
  "get_entities [''B-Aspect'', ''I-Aspect''] = [(''Aspect'', 0, 1)]
   \<and> decoding get_entities (ascii ''ab'') [''B-Aspect'', ''I-Aspect''] = Inr [[ascii ''ab'']]
   \<and> decoding get_entities (ascii ''cd'') [''B-Aspect'', ''I-Aspect''] = Inr [[ascii ''cd'']]
   \<and> ascii ''ab'' \<noteq> ascii ''cd''"
  by (simp add: run_defs)

lemma finish_no_words: "finish (aps, []) = aps"
  by (simp add: finish_def)

text \<open>
  C1 (as amended). Let the segments before some segment hold no aspect entity, and let
  that segment hold one. Then the opinions buffered from the earlier segments are
  appended to the last group that the segment emits, after the opinions the group
  collected inside the segment; the buffer is empty afterwards. The later segments only
  append opinions to a last group and add groups behind it, so the buffered opinions
  stay in that group of the result, and no \<open>None\<close> group is added.
\<close>

theorem orphans_attach_to_last_group:
  assumes "length text = length tag_seq"
    and "entities_of ge text tag_seq = pre @ (sub, ents) # post"
    and "\<forall>s \<in> set pre. \<not> has_aspect s"
    and "has_aspect (sub, ents)"
  shows "fst (ent_loop sub ents ([], [])) \<noteq> []
    \<and> seg_loop (pre @ [(sub, ents)]) ([], []) =
        (butlast (fst (ent_loop sub ents ([], [])))
           @ [last (fst (ent_loop sub ents ([], []))) @ surfaces pre], [])
    \<and> decoding ge text tag_seq =
        Inr (fst (seg_loop post
          (butlast (fst (ent_loop sub ents ([], [])))
             @ [last (fst (ent_loop sub ents ([], []))) @ surfaces pre], [])))
    \<and> (\<exists>ws gs. decoding ge text tag_seq =
          Inr (butlast (fst (ent_loop sub ents ([], [])))
                 @ [last (fst (ent_loop sub ents ([], []))) @ surfaces pre @ ws] @ gs))"
proof -
  let ?sa = "fst (ent_loop sub ents ([], []))"
  let ?G = "extend_last ?sa (surfaces pre)"
  have ne: "?sa \<noteq> []"
    using assms(4) by (simp add: has_aspect_def ent_loop_has_aspect)
  have pre: "seg_loop pre ([], []) = ([], surfaces pre)"
    using seg_loop_no_aspect [of pre "[]"] assms(3) by simp
  have step: "seg_step (sub, ents) ([], surfaces pre) = (?G, [])"
    using seg_step_aspect [OF assms(4), of "[]" "surfaces pre"] by (simp only: append_Nil)
  have upto: "seg_loop (pre @ [(sub, ents)]) ([], []) = (?G, [])"
    by (simp only: seg_loop_append pre seg_loop.simps step)
  have "seg_loop (entities_of ge text tag_seq) ([], []) = seg_loop post (?G, [])"
    by (simp only: assms(2) seg_loop_append pre seg_loop.simps step)
  then have dec: "decoding ge text tag_seq = Inr (finish (seg_loop post (?G, [])))"
    using assms(1) by (simp add: decoding_eq)
  have G: "?G \<noteq> []" by (rule extend_last_not_Nil)
  from seg_loop_after [OF G] obtain ws gs
    where after: "seg_loop post (?G, []) = (extend_last ?G ws @ gs, [])" by blast
  have exact: "decoding ge text tag_seq = Inr (fst (seg_loop post (?G, [])))"
    using dec after by (simp add: finish_no_words)
  have "decoding ge text tag_seq = Inr (extend_last ?sa (surfaces pre @ ws) @ gs)"
    using exact after by (simp add: extend_last_twice)
  then have "\<exists>ws gs. decoding ge text tag_seq =
      Inr (butlast ?sa @ [last ?sa @ surfaces pre @ ws] @ gs)"
    unfolding extend_last_def by auto
  with ne upto exact show ?thesis unfolding extend_last_def by simp
qed

theorem orphans_attach_to_last_group_witness:
  "decoding get_entities (ascii ''a,bcd,e'')
     [''B-Opinion'', ''O'', ''B-Aspect'', ''O'', ''B-Aspect'', ''O'', ''B-Opinion'']
   = Inr [[ascii ''b''], [ascii ''d'', ascii ''a'', ascii ''e'']]"
proof -
  let ?text = "ascii ''a,bcd,e''"
  let ?tags = "[''B-Opinion'', ''O'', ''B-Aspect'', ''O'', ''B-Aspect'', ''O'', ''B-Opinion'']"
  let ?pre = "[(ascii ''a'', [(''Opinion'', 0, 0)])]"
  let ?sub = "ascii '',bcd''"
  let ?ents = "[(''Aspect'', 1, 1), (''Aspect'', 3, 3)]"
  let ?post = "[(ascii '',e'', [(''Opinion'', 1, 1)])]"
  have len: "length ?text = length ?tags" by (simp add: ascii_def)
  have ents: "entities_of get_entities ?text ?tags = ?pre @ (?sub, ?ents) # ?post"
    by (simp add: entities_of_def run_defs)
  have pre: "\<forall>s \<in> set ?pre. \<not> has_aspect s" by (simp add: has_aspect_def)
  have seg: "has_aspect (?sub, ?ents)" by (simp add: has_aspect_def)
  have "decoding get_entities ?text ?tags =
      Inr (fst (seg_loop ?post
        (butlast (fst (ent_loop ?sub ?ents ([], [])))
           @ [last (fst (ent_loop ?sub ?ents ([], []))) @ surfaces ?pre], [])))"
    using orphans_attach_to_last_group [OF len ents pre seg] by blast
  also have "\<dots> = Inr [[ascii ''b''], [ascii ''d'', ascii ''a'', ascii ''e'']]"
    by (simp add: surfaces_def slice_def ascii_def extend_last_def)
  finally show ?thesis .
qed

text \<open>
  C1 as stated fails when the later segment emits more than one group: the orphan
  \<open>a\<close> of the first segment joins the group of \<open>d\<close>, the last of the second
  segment, not the group of \<open>b\<close>, its first.
\<close>

theorem orphans_first_group_counterexample:
  "entities_of get_entities (ascii ''a,bcd'')
     [''B-Opinion'', ''O'', ''B-Aspect'', ''O'', ''B-Aspect'']
   = [(ascii ''a'', [(''Opinion'', 0, 0)]),
      (ascii '',bcd'', [(''Aspect'', 1, 1), (''Aspect'', 3, 3)])]
   \<and> decoding get_entities (ascii ''a,bcd'')
     [''B-Opinion'', ''O'', ''B-Aspect'', ''O'', ''B-Aspect'']
   = Inr [[ascii ''b''], [ascii ''d'', ascii ''a'']]
   \<and> decoding get_entities (ascii ''a,bcd'')
     [''B-Opinion'', ''O'', ''B-Aspect'', ''O'', ''B-Aspect'']
   \<noteq> Inr [[ascii ''b'', ascii ''a''], [ascii ''d'']]"
  by (simp add: entities_of_def run_defs)

lemma finish_no_aspect:
  "finish ([], ws) = (if ws = [] then [] else [ascii ''None'' # ws])"
  by (simp add: finish_def)

text \<open>
  C5. When no segment holds an aspect entity and there is at least one entity, the
  result is exactly one group: the sentinel \<open>None\<close> followed by the surface strings
  of all entities, in the order of the segments and, within a segment, of the
  extractor.
\<close>

theorem only_opinions:
  assumes "length text = length tag_seq"
    and "\<forall>seg \<in> set (entities_of ge text tag_seq). \<not> has_aspect seg"
    and "surfaces (entities_of ge text tag_seq) \<noteq> []"
  shows "decoding ge text tag_seq = Inr [ascii ''None'' # surfaces (entities_of ge text tag_seq)]"
proof -
  have "seg_loop (entities_of ge text tag_seq) ([], []) = ([], surfaces (entities_of ge text tag_seq))"
    using seg_loop_no_aspect [of "entities_of ge text tag_seq" "[]"] assms(2) by simp
  then show ?thesis using assms(1,3) by (simp add: decoding_eq finish_no_aspect)
qed

theorem only_opinions_witness:
  "decoding get_entities (ascii ''ab,c'') [''B-Opinion'', ''I-Opinion'', ''O'', ''B-Opinion'']
     = Inr [[ascii ''None'', ascii ''ab'', ascii ''c'']]"
proof -
  let ?text = "ascii ''ab,c''"
  let ?tags = "[''B-Opinion'', ''I-Opinion'', ''O'', ''B-Opinion'']"
  have ents: "entities_of get_entities ?text ?tags =
      [(ascii ''ab'', [(''Opinion'', 0, 1)]), (ascii '',c'', [(''Opinion'', 1, 1)])]"
    by (simp add: entities_of_def run_defs)
  have len: "length ?text = length ?tags" by (simp add: ascii_def)
  have na: "\<forall>seg \<in> set (entities_of get_entities ?text ?tags). \<not> has_aspect seg"
    by (simp add: ents has_aspect_def)
  have sf: "surfaces (entities_of get_entities ?text ?tags) = [ascii ''ab'', ascii ''c'']"
    unfolding ents by (simp add: surfaces_def slice_def ascii_def)
  show ?thesis using only_opinions [OF len na] sf by simp
qed







lemma ent_step_as_opinion: "ent_step sub (as_opinion ent) st = ent_step sub ent st"
  by (cases ent; cases st) simp

lemma ent_loop_as_opinion: "ent_loop sub (map as_opinion ents) st = ent_loop sub ents st"
  by (induction ents arbitrary: st) (simp_all add: ent_step_as_opinion)

lemma seg_step_as_opinion:
  "seg_step (sub, map as_opinion ents) st = seg_step (sub, ents) st"
  by (cases st) (simp add: ent_loop_as_opinion)

lemma seg_loop_as_opinion:
  "seg_loop (map (\<lambda>(sub, ents). (sub, map as_opinion ents)) segs) st = seg_loop segs st"
proof (induction segs arbitrary: st)
  case Nil
  then show ?case by simp
next
  case (Cons seg segs)
  obtain sub ents where seg: "seg = (sub, ents)" by (cases seg)
  show ?case using Cons.IH by (simp add: seg seg_step_as_opinion del: seg_step.simps)
qed

lemma ents_list_as_opinion:
  "ents_list (\<lambda>ts. map as_opinion (ge ts)) A B =
     map (\<lambda>(sub, ents). (sub, map as_opinion ents)) (ents_list ge A B)"
  by (simp add: ents_list_def case_prod_unfold)

text \<open>
  C9. An entity whose name is not \<open>Aspect\<close> takes the \<open>else\<close> branch whatever the
  name is: the step is the one of an entity named \<open>Opinion\<close> with the same offsets,
  which appends the surface string to the last group of the segment, or to the
  segment's buffer when the segment has no group yet. Renaming every such entity to
  \<open>Opinion\<close> in the extractor's output leaves the result of the decoder unchanged.
  No such entity is rejected or ignored by the decoder: for a text and a tag sequence
  of equal length, the elements that follow the first in the groups of the result are,
  as a multiset, the surface strings of all entities with a name other than
  \<open>Aspect\<close>, so the surface string of each of them stands in a group as an opinion.
\<close>

theorem other_names_are_opinions:
  assumes "ent_name \<noteq> ''Aspect''"
  shows "ent_step sub (ent_name, start, end) (sub_aps, sub_no_a_words) =
           ent_step sub (''Opinion'', start, end) (sub_aps, sub_no_a_words)
    \<and> ent_step sub (ent_name, start, end) (sub_aps, sub_no_a_words) =
        (if sub_aps \<noteq> []
         then (butlast sub_aps @ [last sub_aps @ [slice sub start (end + 1)]], sub_no_a_words)
         else ([], sub_no_a_words @ [slice sub start (end + 1)]))
    \<and> decoding (\<lambda>ts. map as_opinion (ge ts)) text tag_seq = decoding ge text tag_seq
    \<and> (length text = length tag_seq \<longrightarrow>
         (\<exists>aps. decoding ge text tag_seq = Inr aps
            \<and> mset (concat (map tl aps)) = mset (other_surfaces (entities_of ge text tag_seq))
            \<and> ((sub, ent_list) \<in> set (entities_of ge text tag_seq)
                 \<and> (ent_name, start, end) \<in> set ent_list
                \<longrightarrow> slice sub start (end + 1) \<in> set (concat (map tl aps)))))"
proof -
  have a: "ent_step sub (ent_name, start, end) (sub_aps, sub_no_a_words) =
           ent_step sub (''Opinion'', start, end) (sub_aps, sub_no_a_words)"
    using assms by simp
  have b: "ent_step sub (ent_name, start, end) (sub_aps, sub_no_a_words) =
        (if sub_aps \<noteq> []
         then (butlast sub_aps @ [last sub_aps @ [slice sub start (end + 1)]], sub_no_a_words)
         else ([], sub_no_a_words @ [slice sub start (end + 1)]))"
    using assms by (simp add: extend_last_def)
  have c: "decoding (\<lambda>ts. map as_opinion (ge ts)) text tag_seq = decoding ge text tag_seq"
    by (simp add: decoding_def ents_list_as_opinion seg_loop_as_opinion split: prod.splits)
  have d: "\<exists>aps. decoding ge text tag_seq = Inr aps
            \<and> mset (concat (map tl aps)) = mset (other_surfaces (entities_of ge text tag_seq))
            \<and> ((sub, ent_list) \<in> set (entities_of ge text tag_seq)
                 \<and> (ent_name, start, end) \<in> set ent_list
                \<longrightarrow> slice sub start (end + 1) \<in> set (concat (map tl aps)))"
    if len: "length text = length tag_seq"
  proof -
    from decoding_groups [OF len, of ge] obtain aps
      where dec: "decoding ge text tag_seq = Inr aps"
        and ms: "mset (concat (map tl aps)) = mset (other_surfaces (entities_of ge text tag_seq))"
      by blast
    have "slice sub start (end + 1) \<in> set (concat (map tl aps))"
      if m: "(sub, ent_list) \<in> set (entities_of ge text tag_seq)"
        and e: "(ent_name, start, end) \<in> set ent_list"
    proof -
      from e assms have "slice sub start (end + 1) \<in> set (others_in sub ent_list)"
        by (force simp add: others_in_def)
      with m have "slice sub start (end + 1) \<in> set (other_surfaces (entities_of ge text tag_seq))"
        by (force simp add: other_surfaces_def)
      then show ?thesis using ms by (metis set_mset_mset)
    qed
    with dec ms show ?thesis by blast
  qed
  from a b c d show ?thesis by blast
qed

theorem other_names_are_opinions_witness:
  "ent_step (ascii ''xy'') (''Polarity'', 1, 1) ([[ascii ''x'']], [])
     = ([[ascii ''x'', ascii ''y'']], [])
   \<and> ent_step (ascii ''xy'') (''Polarity'', 1, 1) ([], [])
     = ([], [ascii ''y''])
   \<and> (\<exists>aps. decoding get_entities (ascii ''xy'') [''B-Aspect'', ''B-Polarity''] = Inr aps
         \<and> ascii ''y'' \<in> set (concat (map tl aps)))"
proof -
  have n: "''Polarity'' \<noteq> ''Aspect''" by simp
  have a: "ent_step (ascii ''xy'') (''Polarity'', 1, 1) ([[ascii ''x'']], [])
     = ([[ascii ''x'', ascii ''y'']], [])"
    using other_names_are_opinions [OF n, of "ascii ''xy''" 1 1 "[[ascii ''x'']]" "[]"]
    by (simp add: slice_def ascii_def extend_last_def)
  have b: "ent_step (ascii ''xy'') (''Polarity'', 1, 1) ([], []) = ([], [ascii ''y''])"
    using other_names_are_opinions [OF n, of "ascii ''xy''" 1 1 "[]" "[]"]
    by (simp add: slice_def ascii_def)
  let ?T = "ascii ''xy''"
  let ?G = "[''B-Aspect'', ''B-Polarity'']"
  let ?ents = "[(''Aspect'', 0, 0), (''Polarity'', 1, 1)]"
  have len: "length ?T = length ?G" by (simp add: ascii_def)
  have ents: "entities_of get_entities ?T ?G = [(?T, ?ents)]"
    by (simp add: entities_of_def run_defs)
  have m: "(?T, ?ents) \<in> set (entities_of get_entities ?T ?G)
           \<and> (''Polarity'', 1, 1) \<in> set ?ents"
    unfolding ents by simp
  have sl: "slice ?T 1 (1 + 1) = ascii ''y''" by (simp add: slice_def ascii_def)
  from other_names_are_opinions [OF n, of ?T 1 1 _ _ get_entities ?T ?G ?ents] len m
  obtain aps where r1: "decoding get_entities ?T ?G = Inr aps"
    and r2: "slice ?T 1 (1 + 1) \<in> set (concat (map tl aps))" by blast
  from r2 have r3: "ascii ''y'' \<in> set (concat (map tl aps))" unfolding sl .
  show ?thesis
  proof (intro conjI exI [of _ aps])
    show "ent_step (ascii ''xy'') (''Polarity'', 1, 1) ([[ascii ''x'']], [])
       = ([[ascii ''x'', ascii ''y'']], [])" by (rule a)
    show "ent_step (ascii ''xy'') (''Polarity'', 1, 1) ([], []) = ([], [ascii ''y''])"
      by (rule b)
    show "decoding get_entities ?T ?G = Inr aps" by (rule r1)
    show "ascii ''y'' \<in> set (concat (map tl aps))" by (rule r3)
  qed
qed

text \<open>
  C10. The decoder keeps duplicates: the opinion \<open>a\<close> is extracted twice after the
  aspect \<open>x\<close> and stands twice in the group. The set that \<open>predict\<close> builds from the
  group afterwards holds it once.
\<close>

theorem no_deduplication:
  "entities_of get_entities (ascii ''xaya'') [''B-Aspect'', ''B-Opinion'', ''O'', ''B-Opinion'']
     = [(ascii ''xaya'', [(''Aspect'', 0, 0), (''Opinion'', 1, 1), (''Opinion'', 3, 3)])]
   \<and> decoding get_entities (ascii ''xaya'') [''B-Aspect'', ''B-Opinion'', ''O'', ''B-Opinion'']
     = Inr [[ascii ''x'', ascii ''a'', ascii ''a'']]
   \<and> count_list (drop 1 [ascii ''x'', ascii ''a'', ascii ''a'']) (ascii ''a'') = 2
   \<and> opinion_words [ascii ''x'', ascii ''a'', ascii ''a''] = {ascii ''a''}"
  by (simp add: entities_of_def run_defs opinion_words_def)

section \<open>The decoder on a store\<close>

lemma frame_refl: "frame lo h h"
  by (simp add: frame_def)

lemma frame_trans: "frame lo h h' \<Longrightarrow> frame lo h' h'' \<Longrightarrow> frame lo h h''"
  by (auto simp add: frame_def)

lemma frame_mono: "lo' \<le> lo \<Longrightarrow> frame lo h h' \<Longrightarrow> frame lo' h h'"
  by (auto simp add: frame_def)

lemma frame_update: "lo \<le> a \<Longrightarrow> frame lo h (h[a := x])"
  by (auto simp add: frame_def)

lemma frame_alloc: "frame lo h (h @ xs)"
  by (auto simp add: frame_def nth_append)

lemma frame_take: "frame (length h) h h' \<Longrightarrow> take (length h) h' = h"
  by (auto simp add: frame_def intro: nth_equalityI)

lemma acc_rel_frame:
  assumes "acc_rel lo h a n gs ws" and "frame (length h) h h'"
  shows "acc_rel lo h' a n gs ws"
proof -
  from assms(1) obtain rs where b: "lo \<le> a" "lo \<le> n" "a < length h" "n < length h" "a \<noteq> n"
    and n: "h ! n = Strs ws" and a: "h ! a = Refs rs" and d: "distinct rs"
    and r: "\<forall>r\<in>set rs. lo \<le> r \<and> r < length h \<and> r \<noteq> a \<and> r \<noteq> n"
    and m: "map (\<lambda>r. h ! r) rs = map Strs gs"
    by (auto simp add: acc_rel_def)
  from assms(2) have len: "length h \<le> length h'" and same: "\<And>x. x < length h \<Longrightarrow> h' ! x = h ! x"
    by (auto simp add: frame_def)
  have "map (\<lambda>r. h' ! r) rs = map (\<lambda>r. h ! r) rs" using r same by simp
  with m have "map (\<lambda>r. h' ! r) rs = map Strs gs" by simp
  moreover have "\<forall>r\<in>set rs. lo \<le> r \<and> r < length h' \<and> r \<noteq> a \<and> r \<noteq> n" using r len by auto
  ultimately show ?thesis using b n a d len same unfolding acc_rel_def by auto
qed

lemma acc_rel_value: "acc_rel lo h a n gs ws \<Longrightarrow> value_of h a = gs \<and> strs_of (h ! n) = ws"
proof -
  assume "acc_rel lo h a n gs ws"
  then obtain rs where a: "h ! a = Refs rs" and n: "h ! n = Strs ws"
    and m: "map (\<lambda>r. h ! r) rs = map Strs gs"
    by (auto simp add: acc_rel_def)
  have "map (\<lambda>r. strs_of (h ! r)) rs = map strs_of (map (\<lambda>r. h ! r) rs)" by simp
  also have "\<dots> = gs" unfolding m by (simp add: comp_def)
  finally show ?thesis using a n by (simp add: value_of_def)
qed

lemma acc_rel_refs:
  "acc_rel lo h a n gs ws \<Longrightarrow> length (refs_of (h ! a)) = length gs"
proof -
  assume "acc_rel lo h a n gs ws"
  then obtain rs where a: "h ! a = Refs rs" and m: "map (\<lambda>r. h ! r) rs = map Strs gs"
    by (auto simp add: acc_rel_def)
  from m have "length rs = length gs" by (metis length_map)
  then show ?thesis using a by simp
qed


lemma acc_rel_new_group:
  assumes "acc_rel lo h a n gs ws"
  shows "acc_rel lo (list_append_ref a (length h) (h @ [Strs g])) a n (gs @ [g]) ws
    \<and> frame lo h (list_append_ref a (length h) (h @ [Strs g]))"
proof -
  let ?h' = "list_append_ref a (length h) (h @ [Strs g])"
  from assms obtain rs where b: "lo \<le> a" "lo \<le> n" "a < length h" "n < length h" "a \<noteq> n"
    and n: "h ! n = Strs ws" and a: "h ! a = Refs rs" and d: "distinct rs"
    and r: "\<forall>r\<in>set rs. lo \<le> r \<and> r < length h \<and> r \<noteq> a \<and> r \<noteq> n"
    and m: "map (\<lambda>r. h ! r) rs = map Strs gs"
    by (auto simp add: acc_rel_def)
  have h': "?h' = (h @ [Strs g])[a := Refs (rs @ [length h])]"
    using b a by (simp add: list_append_ref_def nth_append)
  have len: "length ?h' = Suc (length h)" by (simp add: h')
  have at_a: "?h' ! a = Refs (rs @ [length h])" using b by (simp add: h')
  have at_n: "?h' ! n = Strs ws" using b n by (simp add: h' nth_append)
  have at_new: "?h' ! length h = Strs g" using b by (simp add: h')
  have old: "\<And>x. x < length h \<Longrightarrow> x \<noteq> a \<Longrightarrow> ?h' ! x = h ! x"
    by (simp add: h' nth_append)
  have "map (\<lambda>r. ?h' ! r) rs = map (\<lambda>r. h ! r) rs" using r old by simp
  with m at_new have m': "map (\<lambda>r. ?h' ! r) (rs @ [length h]) = map Strs (gs @ [g])"
    by simp
  have d': "distinct (rs @ [length h])" using d r by auto
  have r': "\<forall>r\<in>set (rs @ [length h]). lo \<le> r \<and> r < length ?h' \<and> r \<noteq> a \<and> r \<noteq> n"
    using r b len by auto
  have rel: "acc_rel lo ?h' a n (gs @ [g]) ws"
    unfolding acc_rel_def using b len at_a at_n d' r' m' by auto
  have "frame lo h (h @ [Strs g])" by (rule frame_alloc)
  moreover have "frame lo (h @ [Strs g]) ?h'"
    unfolding list_append_ref_def using b by (intro frame_update) simp
  ultimately have "frame lo h ?h'" by (rule frame_trans)
  with rel show ?thesis by simp
qed

lemma acc_rel_extend_last:
  assumes "acc_rel lo h a n gs ws" and "gs \<noteq> []"
  shows "acc_rel lo (h[last_ref a h := Strs (strs_of (h ! last_ref a h) @ ys)]) a n
           (extend_last gs ys) ws
    \<and> frame lo h (h[last_ref a h := Strs (strs_of (h ! last_ref a h) @ ys)])"
proof -
  let ?l = "last_ref a h"
  let ?h' = "h[?l := Strs (strs_of (h ! ?l) @ ys)]"
  from assms(1) obtain rs where b: "lo \<le> a" "lo \<le> n" "a < length h" "n < length h" "a \<noteq> n"
    and n: "h ! n = Strs ws" and a: "h ! a = Refs rs" and d: "distinct rs"
    and r: "\<forall>r\<in>set rs. lo \<le> r \<and> r < length h \<and> r \<noteq> a \<and> r \<noteq> n"
    and m: "map (\<lambda>r. h ! r) rs = map Strs gs"
    by (auto simp add: acc_rel_def)
  from m have "length rs = length gs" by (metis length_map)
  with assms(2) have rne: "rs \<noteq> []" by auto
  then obtain rs' l where rs: "rs = rs' @ [l]" by (cases rs rule: rev_cases) auto
  from assms(2) obtain gs' g where gs: "gs = gs' @ [g]" by (cases gs rule: rev_cases) auto
  have l: "?l = l" using a by (simp add: last_ref_def rs)
  from m have m1: "map (\<lambda>r. h ! r) rs' = map Strs gs'" and hl: "h ! l = Strs g"
    unfolding rs gs by simp_all
  from d have lnot: "l \<notin> set rs'" unfolding rs by simp
  from r have lb: "lo \<le> l" "l < length h" "l \<noteq> a" "l \<noteq> n" unfolding rs by simp_all
  have at_l: "?h' ! l = Strs (g @ ys)" using lb hl by (simp add: l)
  have "map (\<lambda>r. ?h' ! r) rs' = map (\<lambda>r. h ! r) rs'"
    using lnot lb by (auto simp add: l nth_list_update)
  with m1 at_l have m': "map (\<lambda>r. ?h' ! r) rs = map Strs (extend_last gs ys)"
    by (simp add: rs gs extend_last_snoc)
  have rel: "acc_rel lo ?h' a n (extend_last gs ys) ws"
    unfolding acc_rel_def using b n a d r m' lb by (auto simp add: l)
  have "frame lo h ?h'" using lb by (intro frame_update) (simp add: l)
  with rel show ?thesis by simp
qed

lemma acc_rel_buffer:
  assumes "acc_rel lo h a n gs ws"
  shows "acc_rel lo (h[n := Strs ws']) a n gs ws' \<and> frame lo h (h[n := Strs ws'])"
proof -
  from assms obtain rs where b: "lo \<le> a" "lo \<le> n" "a < length h" "n < length h" "a \<noteq> n"
    and a: "h ! a = Refs rs" and d: "distinct rs"
    and r: "\<forall>r\<in>set rs. lo \<le> r \<and> r < length h \<and> r \<noteq> a \<and> r \<noteq> n"
    and m: "map (\<lambda>r. h ! r) rs = map Strs gs"
    by (auto simp add: acc_rel_def)
  have "map (\<lambda>r. h[n := Strs ws'] ! r) rs = map (\<lambda>r. h ! r) rs"
    using r by (auto simp add: nth_list_update)
  with m have "map (\<lambda>r. h[n := Strs ws'] ! r) rs = map Strs gs" by simp
  then have "acc_rel lo (h[n := Strs ws']) a n gs ws'"
    unfolding acc_rel_def using b a d r by auto
  moreover have "frame lo h (h[n := Strs ws'])" using b by (intro frame_update)
  ultimately show ?thesis by simp
qed

lemma acc_rel_extend_refs:
  assumes "acc_rel lo h0 a n gs ws" and "frame (length h0) h0 h"
    and "acc_rel (length h0) h sa sn gs2 ws2"
  shows "acc_rel lo (list_extend_refs a sa h) a n (gs @ gs2) ws
    \<and> frame lo h (list_extend_refs a sa h)"
proof -
  let ?h' = "list_extend_refs a sa h"
  from assms(1) have bo: "lo \<le> a" "lo \<le> n" "a < length h0" "n < length h0" "a \<noteq> n"
    by (auto simp add: acc_rel_def)
  from assms(1) obtain ro where ro: "h0 ! a = Refs ro"
    "\<forall>r\<in>set ro. lo \<le> r \<and> r < length h0 \<and> r \<noteq> a \<and> r \<noteq> n"
    by (auto simp add: acc_rel_def)
  from acc_rel_frame [OF assms(1,2)] obtain rs where
    n: "h ! n = Strs ws" and a: "h ! a = Refs rs" and d: "distinct rs"
    and r: "\<forall>r\<in>set rs. lo \<le> r \<and> r < length h \<and> r \<noteq> a \<and> r \<noteq> n"
    and m: "map (\<lambda>r. h ! r) rs = map Strs gs"
    by (auto simp add: acc_rel_def)
  from assms(2) bo ro a have "rs = ro" by (auto simp add: frame_def)
  with ro have rlow: "\<forall>r\<in>set rs. r < length h0" by simp
  from assms(2) have len: "length h0 \<le> length h" by (simp add: frame_def)
  from assms(3) obtain rs2 where sa: "h ! sa = Refs rs2" and d2: "distinct rs2"
    and r2: "\<forall>r\<in>set rs2. length h0 \<le> r \<and> r < length h \<and> r \<noteq> sa \<and> r \<noteq> sn"
    and m2: "map (\<lambda>r. h ! r) rs2 = map Strs gs2"
    by (auto simp add: acc_rel_def)
  have h': "?h' = h[a := Refs (rs @ rs2)]" using a sa by (simp add: list_extend_refs_def)
  have alen: "a < length h" using bo len by simp
  have at_a: "?h' ! a = Refs (rs @ rs2)" using alen by (simp add: h')
  have at_n: "?h' ! n = Strs ws" using n bo by (simp add: h')
  have "map (\<lambda>r. ?h' ! r) rs = map (\<lambda>r. h ! r) rs"
    using r by (auto simp add: h' nth_list_update)
  moreover have "map (\<lambda>r. ?h' ! r) rs2 = map (\<lambda>r. h ! r) rs2"
    using r2 bo by (auto simp add: h' nth_list_update)
  ultimately have m': "map (\<lambda>r. ?h' ! r) (rs @ rs2) = map Strs (gs @ gs2)"
    using m m2 by simp
  have d': "distinct (rs @ rs2)" using d d2 rlow r2 by fastforce
  have r': "\<forall>r\<in>set (rs @ rs2). lo \<le> r \<and> r < length ?h' \<and> r \<noteq> a \<and> r \<noteq> n"
    using r r2 bo by (auto simp add: h')
  have rel: "acc_rel lo ?h' a n (gs @ gs2) ws"
    unfolding acc_rel_def using bo len at_a at_n d' r' m' by (auto simp add: h')
  have "frame lo h ?h'" unfolding h' using bo by (intro frame_update)
  with rel show ?thesis by simp
qed

lemma ent_step_h_sim:
  assumes "acc_rel lo h sa sn gs ws"
  shows "acc_rel lo (ent_step_h sub ent sa sn h) sa sn
           (fst (ent_step sub ent (gs, ws))) (snd (ent_step sub ent (gs, ws)))
    \<and> frame lo h (ent_step_h sub ent sa sn h)"
proof -
  obtain name s e where ent: "ent = (name, s, e)" by (cases ent)
  let ?w = "slice sub s (e + 1)"
  from acc_rel_value [OF assms] have sn: "strs_of (h ! sn) = ws" by simp
  from acc_rel_refs [OF assms] have sa: "length (refs_of (h ! sa)) = length gs" .
  show ?thesis
  proof (cases "name = ''Aspect''")
    case True
    let ?h1 = "list_append_ref sa (length h) (h @ [Strs [?w]])"
    from acc_rel_new_group [OF assms, of "[?w]"]
    have r1: "acc_rel lo ?h1 sa sn (gs @ [[?w]]) ws" and f1: "frame lo h ?h1" by simp_all
    from acc_rel_value [OF r1] have sn1: "strs_of (?h1 ! sn) = ws" by simp
    show ?thesis
    proof (cases "ws = []")
      case ws: True
      have "ent_step_h sub ent sa sn h = ?h1"
        using True ws sn1 by (simp add: ent Let_def)
      then show ?thesis using r1 f1 True ws by (simp add: ent ent_step_aspect del: ent_step.simps)
    next
      case ws: False
      let ?l = "last_ref sa ?h1"
      let ?h2 = "?h1[?l := Strs (strs_of (?h1 ! ?l) @ ws)]"
      let ?h3 = "?h2[sn := Strs []]"
      from acc_rel_extend_last [OF r1, of ws]
      have r2: "acc_rel lo ?h2 sa sn (extend_last (gs @ [[?w]]) ws) ws" and f2: "frame lo ?h1 ?h2"
        by simp_all
      from acc_rel_buffer [OF r2, of "[]"]
      have r3: "acc_rel lo ?h3 sa sn (extend_last (gs @ [[?w]]) ws) []" and f3: "frame lo ?h2 ?h3"
        by simp_all
      have "ent_step_h sub ent sa sn h = ?h3"
        using True ws sn1 by (simp add: ent Let_def strs_clear_def strs_extend_def)
      moreover have "frame lo h ?h3" using f1 f2 f3 by (blast intro: frame_trans)
      ultimately show ?thesis using r3 True
        by (simp add: ent ent_step_aspect extend_last_snoc del: ent_step.simps)
    qed
  next
    case False
    show ?thesis
    proof (cases "gs = []")
      case gs: True
      let ?h1 = "h[sn := Strs (ws @ [?w])]"
      from acc_rel_buffer [OF assms, of "ws @ [?w]"]
      have r1: "acc_rel lo ?h1 sa sn gs (ws @ [?w])" and f1: "frame lo h ?h1" by simp_all
      have "ent_step_h sub ent sa sn h = ?h1"
        using False gs sa sn by (simp add: ent strs_append_def)
      then show ?thesis using r1 f1 False gs
        by (simp add: ent ent_step_other del: ent_step.simps)
    next
      case gs: False
      let ?l = "last_ref sa h"
      let ?h1 = "h[?l := Strs (strs_of (h ! ?l) @ [?w])]"
      from acc_rel_extend_last [OF assms gs, of "[?w]"]
      have r1: "acc_rel lo ?h1 sa sn (extend_last gs [?w]) ws" and f1: "frame lo h ?h1"
        by simp_all
      have "ent_step_h sub ent sa sn h = ?h1"
        using False gs sa by (simp add: ent strs_append_def)
      then show ?thesis using r1 f1 False gs
        by (simp add: ent ent_step_other del: ent_step.simps)
    qed
  qed
qed

lemma ent_loop_h_sim:
  assumes "acc_rel lo h sa sn gs ws"
  shows "acc_rel lo (ent_loop_h sub ents sa sn h) sa sn
           (fst (ent_loop sub ents (gs, ws))) (snd (ent_loop sub ents (gs, ws)))
    \<and> frame lo h (ent_loop_h sub ents sa sn h)"
  using assms
proof (induction ents arbitrary: h gs ws)
  case Nil
  then show ?case by (simp add: frame_refl)
next
  case (Cons ent ents)
  obtain gs' ws' where st: "ent_step sub ent (gs, ws) = (gs', ws')"
    by (cases "ent_step sub ent (gs, ws)")
  from ent_step_h_sim [OF Cons.prems, of sub ent] st
  have r: "acc_rel lo (ent_step_h sub ent sa sn h) sa sn gs' ws'"
    and f: "frame lo h (ent_step_h sub ent sa sn h)" by simp_all
  from Cons.IH [OF r] f show ?case
    by (auto simp add: st simp del: ent_step.simps ent_step_h.simps intro: frame_trans)
qed

lemma seg_step_h_sim:
  assumes "acc_rel lo h a n gs ws"
  shows "acc_rel lo (seg_step_h seg a n h) a n
           (fst (seg_step seg (gs, ws))) (snd (seg_step seg (gs, ws)))
    \<and> frame lo h (seg_step_h seg a n h)"
proof -
  obtain sub ents where seg: "seg = (sub, ents)" by (cases seg)
  obtain psa psn where el: "ent_loop sub ents ([], []) = (psa, psn)"
    by (cases "ent_loop sub ents ([], [])")
  let ?sa = "length h"
  let ?sn = "length h + 1"
  let ?h1 = "h @ [Refs [], Strs []]"
  let ?h2 = "ent_loop_h sub ents ?sa ?sn ?h1"
  have lo: "lo \<le> length h" using assms by (simp add: acc_rel_def)
  have r0: "acc_rel (length h) ?h1 ?sa ?sn [] []"
    by (simp add: acc_rel_def nth_append)
  from ent_loop_h_sim [OF r0, of sub ents] el
  have ri: "acc_rel (length h) ?h2 ?sa ?sn psa psn" and fi: "frame (length h) ?h1 ?h2"
    by simp_all
  have f2: "frame (length h) h ?h2" using frame_alloc fi by (rule frame_trans)
  have f2lo: "frame lo h ?h2" using lo f2 by (rule frame_mono)
  have ro: "acc_rel lo ?h2 a n gs ws" using assms f2 by (rule acc_rel_frame)
  from acc_rel_value [OF ri] have psn: "strs_of (?h2 ! ?sn) = psn" by simp
  from acc_rel_refs [OF ri] have psa: "refs_of (?h2 ! ?sa) = [] \<longleftrightarrow> psa = []" 
    by (metis length_0_conv)
  from acc_rel_value [OF ro] have ws: "strs_of (?h2 ! n) = ws" by simp
  from acc_rel_refs [OF ro] have gs: "refs_of (?h2 ! a) = [] \<longleftrightarrow> gs = []" 
    by (metis length_0_conv)
  show ?thesis
  proof (cases "psa = []")
    case pne: False
    let ?h3 = "list_extend_refs a ?sa ?h2"
    from acc_rel_extend_refs [OF assms f2 ri]
    have r3: "acc_rel lo ?h3 a n (gs @ psa) ws" and f3: "frame lo ?h2 ?h3" by simp_all
    from acc_rel_value [OF r3] have ws3: "strs_of (?h3 ! n) = ws" by simp
    show ?thesis
    proof (cases "ws = []")
      case True
      have "seg_step_h seg a n h = ?h3"
        using pne psa True ws3 by (simp add: seg Let_def)
      moreover have "seg_step seg (gs, ws) = (gs @ psa, ws)"
        using pne True by (simp add: seg el Let_def)
      moreover have "frame lo h ?h3" using f2lo f3 by (rule frame_trans)
      ultimately show ?thesis using r3 by simp
    next
      case False
      let ?l = "last_ref a ?h3"
      let ?h4 = "?h3[?l := Strs (strs_of (?h3 ! ?l) @ ws)]"
      let ?h5 = "?h4[n := Strs []]"
      have ne: "gs @ psa \<noteq> []" using pne by simp
      from acc_rel_extend_last [OF r3 ne, of ws]
      have r4: "acc_rel lo ?h4 a n (extend_last (gs @ psa) ws) ws" and f4: "frame lo ?h3 ?h4"
        by simp_all
      from acc_rel_buffer [OF r4, of "[]"]
      have r5: "acc_rel lo ?h5 a n (extend_last (gs @ psa) ws) []" and f5: "frame lo ?h4 ?h5"
        by simp_all
      have "seg_step_h seg a n h = ?h5"
        using pne psa False ws3 by (simp add: seg Let_def strs_clear_def strs_extend_def)
      moreover have "seg_step seg (gs, ws) = (extend_last (gs @ psa) ws, [])"
        using pne False by (simp add: seg el Let_def)
      moreover have "frame lo h ?h5" using f2lo f3 f4 f5 by (blast intro: frame_trans)
      ultimately show ?thesis using r5 by simp
    qed
  next
    case pe: True
    show ?thesis
    proof (cases "psn = []")
      case True
      have "seg_step_h seg a n h = ?h2"
        using pe psa True psn by (simp add: seg Let_def)
      moreover have "seg_step seg (gs, ws) = (gs, ws)"
        using pe True by (simp add: seg el)
      ultimately show ?thesis using ro f2lo by simp
    next
      case sne: False
      show ?thesis
      proof (cases "gs = []")
        case True
        let ?h3 = "?h2[n := Strs (ws @ psn)]"
        from acc_rel_buffer [OF ro, of "ws @ psn"]
        have r3: "acc_rel lo ?h3 a n gs (ws @ psn)" and f3: "frame lo ?h2 ?h3" by simp_all
        have "seg_step_h seg a n h = ?h3"
          using pe psa sne psn True gs ws by (simp add: seg Let_def strs_extend_def)
        moreover have "seg_step seg (gs, ws) = (gs, ws @ psn)"
          using pe sne True by (simp add: seg el)
        moreover have "frame lo h ?h3" using f2lo f3 by (rule frame_trans)
        ultimately show ?thesis using r3 by simp
      next
        case False
        let ?l = "last_ref a ?h2"
        let ?h3 = "?h2[?l := Strs (strs_of (?h2 ! ?l) @ psn)]"
        from acc_rel_extend_last [OF ro False, of psn]
        have r3: "acc_rel lo ?h3 a n (extend_last gs psn) ws" and f3: "frame lo ?h2 ?h3"
          by simp_all
        have "seg_step_h seg a n h = ?h3"
          using pe psa sne psn False gs by (simp add: seg Let_def strs_extend_def)
        moreover have "seg_step seg (gs, ws) = (extend_last gs psn, ws)"
          using pe sne False by (simp add: seg el)
        moreover have "frame lo h ?h3" using f2lo f3 by (rule frame_trans)
        ultimately show ?thesis using r3 by simp
      qed
    qed
  qed
qed

lemma seg_loop_h_sim:
  assumes "acc_rel lo h a n gs ws"
  shows "acc_rel lo (seg_loop_h segs a n h) a n
           (fst (seg_loop segs (gs, ws))) (snd (seg_loop segs (gs, ws)))
    \<and> frame lo h (seg_loop_h segs a n h)"
  using assms
proof (induction segs arbitrary: h gs ws)
  case Nil
  then show ?case by (simp add: frame_refl)
next
  case (Cons seg segs)
  obtain gs' ws' where st: "seg_step seg (gs, ws) = (gs', ws')"
    by (cases "seg_step seg (gs, ws)")
  from seg_step_h_sim [OF Cons.prems, of seg] st
  have r: "acc_rel lo (seg_step_h seg a n h) a n gs' ws'"
    and f: "frame lo h (seg_step_h seg a n h)" by simp_all
  from Cons.IH [OF r] f show ?case
    by (auto simp add: st simp del: seg_step.simps seg_step_h.simps intro: frame_trans)
qed

lemma decoding_h_refines:
  assumes "length text = length tag_seq"
  shows "\<exists>aps h'. decoding_h ge text tag_seq h = Inr (aps, h')
    \<and> decoding ge text tag_seq = Inr (value_of h' aps)
    \<and> take (length h) h' = h"
proof -
  obtain A B where sg: "segment text tag_seq = (A, B)" by (cases "segment text tag_seq")
  let ?E = "ents_list ge A B"
  obtain gs ws where lp: "seg_loop ?E ([], []) = (gs, ws)" by (cases "seg_loop ?E ([], [])")
  let ?a = "length h"
  let ?n = "length h + 1"
  let ?h1 = "h @ [Refs [], Strs []]"
  let ?h2 = "seg_loop_h ?E ?a ?n ?h1"
  have r0: "acc_rel (length h) ?h1 ?a ?n [] []" by (simp add: acc_rel_def nth_append)
  from seg_loop_h_sim [OF r0, of ?E] lp
  have r2: "acc_rel (length h) ?h2 ?a ?n gs ws" and f12: "frame (length h) ?h1 ?h2"
    by simp_all
  have f2: "frame (length h) h ?h2" using frame_alloc f12 by (rule frame_trans)
  from acc_rel_value [OF r2] have v2: "value_of ?h2 ?a = gs" and w2: "strs_of (?h2 ! ?n) = ws"
    by simp_all
  have pure: "decoding ge text tag_seq = Inr (finish (gs, ws))"
    using assms by (simp add: decoding_def sg lp)
  show ?thesis
  proof (cases "ws = []")
    case True
    have "decoding_h ge text tag_seq h = Inr (?a, ?h2)"
      using assms True w2 by (simp add: decoding_h_def sg Let_def)
    moreover have "decoding ge text tag_seq = Inr (value_of ?h2 ?a)"
      using pure True v2 by (simp add: finish_def)
    moreover have "take (length h) ?h2 = h" using f2 by (rule frame_take)
    ultimately show ?thesis by blast
  next
    case False
    let ?h3 = "?h2[?n := Strs (ascii ''None'' # ws)]"
    let ?h4 = "list_append_ref ?a ?n ?h3"
    from acc_rel_buffer [OF r2, of "ascii ''None'' # ws"]
    have r3: "acc_rel (length h) ?h3 ?a ?n gs (ascii ''None'' # ws)"
      and f3: "frame (length h) ?h2 ?h3" by simp_all
    from r3 obtain rs where a3: "?h3 ! ?a = Refs rs" and an: "?a < length ?h3" "?n < length ?h3"
      and r: "\<forall>r\<in>set rs. r \<noteq> ?a"
      and m: "map (\<lambda>r. ?h3 ! r) rs = map Strs gs" and n3: "?h3 ! ?n = Strs (ascii ''None'' # ws)"
      by (auto simp add: acc_rel_def)
    have h4: "?h4 = ?h3[?a := Refs (rs @ [?n])]" using a3 by (simp add: list_append_ref_def)
    have "map (\<lambda>r. ?h4 ! r) rs = map (\<lambda>r. ?h3 ! r) rs"
      unfolding h4 using r by (auto simp add: nth_list_update)
    with m have mm: "map (\<lambda>r. strs_of (?h4 ! r)) rs = gs"
    proof -
      assume "map (\<lambda>r. ?h4 ! r) rs = map (\<lambda>r. ?h3 ! r) rs"
      with m have "map (\<lambda>r. ?h4 ! r) rs = map Strs gs" by simp
      then have "map strs_of (map (\<lambda>r. ?h4 ! r) rs) = map strs_of (map Strs gs)" by simp
      then show ?thesis by (simp add: comp_def)
    qed
    have n4: "?h4 ! ?n = Strs (ascii ''None'' # ws)" unfolding h4 using n3 by simp
    have a4: "?h4 ! ?a = Refs (rs @ [?n])" unfolding h4 using an by simp
    have v4: "value_of ?h4 ?a = gs @ [ascii ''None'' # ws]"
      using mm n4 a4 by (simp add: value_of_def)
    have f4: "frame (length h) ?h3 ?h4" unfolding h4 by (intro frame_update) simp
    have "frame (length h) h ?h4" using f2 f3 f4 by (blast intro: frame_trans)
    then have tk: "take (length h) ?h4 = h" by (rule frame_take)
    have "decoding_h ge text tag_seq h = Inr (?a, ?h4)"
      using assms False w2 by (simp add: decoding_h_def sg Let_def strs_insert0_def)
    moreover have "decoding ge text tag_seq = Inr (value_of ?h4 ?a)"
      using pure False v4 by (simp add: finish_def)
    ultimately show ?thesis using tk by blast
  qed
qed

lemmas heap_defs = decoding_h_def segment_def splits_def puncs_def slice_def ascii_def
  ents_list_def get_entities_def parse_tag_def last_ref_def list_append_ref_def
  list_extend_refs_def strs_extend_def strs_append_def strs_clear_def strs_insert0_def Let_def

text \<open>
  C8. The decoder carries no state from one call to the next. Run on any two stores, for
  instance the store before a first call and the store that this call and the caller
  have left, with the same text and tag sequence, it fails with the same error in
  both, or it returns in both, and then the two lists of groups have the same value, the
  value that the function \<open>decoding\<close> gives, and every object that was in a store
  before the call is unchanged after it: the call writes only to the lists it creates.
\<close>

theorem decoding_no_hidden_state:
  "(\<exists>e. decoding_h ge text tag_seq h1 = Inl e \<and> decoding_h ge text tag_seq h2 = Inl e
        \<and> decoding ge text tag_seq = Inl e)
   \<or> (\<exists>aps1 h1' aps2 h2'.
         decoding_h ge text tag_seq h1 = Inr (aps1, h1')
         \<and> decoding_h ge text tag_seq h2 = Inr (aps2, h2')
         \<and> value_of h1' aps1 = value_of h2' aps2
         \<and> decoding ge text tag_seq = Inr (value_of h1' aps1)
         \<and> take (length h1) h1' = h1 \<and> take (length h2) h2' = h2)"
proof (cases "length text = length tag_seq")
  case False
  then show ?thesis by (simp add: decoding_h_def decoding_def)
next
  case True
  from decoding_h_refines [OF True, of ge h1] obtain aps1 h1'
    where c1: "decoding_h ge text tag_seq h1 = Inr (aps1, h1')"
      and v1: "decoding ge text tag_seq = Inr (value_of h1' aps1)"
      and t1: "take (length h1) h1' = h1" by blast
  from decoding_h_refines [OF True, of ge h2] obtain aps2 h2'
    where c2: "decoding_h ge text tag_seq h2 = Inr (aps2, h2')"
      and v2: "decoding ge text tag_seq = Inr (value_of h2' aps2)"
      and t2: "take (length h2) h2' = h2" by blast
  from v1 v2 have "value_of h1' aps1 = value_of h2' aps2" by simp
  with c1 c2 v1 t1 t2 show ?thesis by blast
qed

theorem decoding_no_hidden_state_witness:
  "decoding_h get_entities (ascii ''a,bcd'')
     [''B-Opinion'', ''O'', ''B-Aspect'', ''O'', ''B-Aspect''] []
   = Inr (0, [Refs [6, 7], Strs [], Refs [], Strs [ascii ''a''], Refs [6, 7], Strs [],
              Strs [ascii ''b''], Strs [ascii ''d'', ascii ''a'']])
   \<and> (\<exists>aps h'.
        decoding_h get_entities (ascii ''a,bcd'')
          [''B-Opinion'', ''O'', ''B-Aspect'', ''O'', ''B-Aspect'']
          [Refs [6, 7], Strs [], Refs [], Strs [ascii ''a''], Refs [6, 7], Strs [],
           Strs [ascii ''b''], Strs [ascii ''d'', ascii ''a'']]
        = Inr (aps, h')
        \<and> value_of h' aps = [[ascii ''b''], [ascii ''d'', ascii ''a'']]
        \<and> take 8 h' = [Refs [6, 7], Strs [], Refs [], Strs [ascii ''a''], Refs [6, 7],
                        Strs [], Strs [ascii ''b''], Strs [ascii ''d'', ascii ''a'']])"
proof -
  let ?T = "ascii ''a,bcd''"
  let ?G = "[''B-Opinion'', ''O'', ''B-Aspect'', ''O'', ''B-Aspect'']"
  let ?H = "[Refs [6, 7], Strs [], Refs [], Strs [ascii ''a''], Refs [6, 7], Strs [],
             Strs [ascii ''b''], Strs [ascii ''d'', ascii ''a'']]"
  have first: "decoding_h get_entities ?T ?G [] = Inr (0, ?H)"
    by (simp add: heap_defs)
  have v: "value_of ?H 0 = [[ascii ''b''], [ascii ''d'', ascii ''a'']]"
    by (simp add: value_of_def)
  have len: "length ?H = 8" by simp
  from decoding_no_hidden_state [of get_entities ?T ?G "[]" ?H] first
  obtain aps h' where c: "decoding_h get_entities ?T ?G ?H = Inr (aps, h')"
    and e: "value_of ?H 0 = value_of h' aps" and t: "take (length ?H) h' = ?H"
    by auto
  from e v have v': "value_of h' aps = [[ascii ''b''], [ascii ''d'', ascii ''a'']]" by simp
  from t have t': "take 8 h' = ?H" by (simp only: len)
  show ?thesis
  proof (intro conjI exI [of _ aps] exI [of _ h'])
    show "decoding_h get_entities ?T ?G [] = Inr (0, ?H)" by (rule first)
    show "decoding_h get_entities ?T ?G ?H = Inr (aps, h')" by (rule c)
    show "value_of h' aps = [[ascii ''b''], [ascii ''d'', ascii ''a'']]" by (rule v')
    show "take 8 h' = ?H" by (rule t')
  qed
qed

end
